theory Spec2Isabelle
  imports Main "HOL-Library.Multiset" "HOL-Library.Multiset_Order" "HOL-Library.Extended_Nat"
begin

section \<open>Data model (types.ts)\<close>

text \<open>
  TypeScript numbers are modelled as unbounded integers: every number the engine handles
  is a grid index, a direction offset, a step count or a sum of those (doubles are exact
  on integers below \<open>2^53\<close>; fractions and infinities are outside the model, and NaN
  is kept only where a caller can pass it, as a priority of the queue).
  Sets of keys are HOL sets of strings, the parent and cost maps are partial functions on
  keys.  An optional field of a snapshot that is absent is \<open>None\<close>.
\<close>

record Coordinate =
  row :: int
  col :: int

record GridDimensions =
  rows :: int
  cols :: int

record AlgoStep =
  visited :: "string set"
  frontier :: "string set"
  current :: "Coordinate option"
  path :: "Coordinate list option"
  depth :: "int option"
  costMap :: "(string \<rightharpoonup> int) option"

definition DIRECTIONS :: "Coordinate list" where
  "DIRECTIONS =
     [\<lparr>row = -1, col = 0\<rparr>, \<lparr>row = 1, col = 0\<rparr>, \<lparr>row = 0, col = -1\<rparr>, \<lparr>row = 0, col = 1\<rparr>]"

section \<open>Coordinate keys: coordToString and stringToCoord\<close>

text \<open>
  The template literal prints each component in decimal, with a leading minus sign for a
  negative number (the form JavaScript gives every integer below \<open>10^21\<close> in absolute
  value).  \<open>Number\<close> is modelled on the strings the engine produces: a decimal integer
  literal with an optional minus sign, and the empty string, which JavaScript reads as 0.
  On any other string the model answers \<open>None\<close>: either the string is not a number
  (NaN; a missing component is undefined), or it is a numeric literal of another form (a
  plus sign, blanks, a fraction, an exponent, a radix prefix), which no key of this engine
  is.  \<open>split\<close> is \<open>String.prototype.split\<close> with a one-character separator.
\<close>

definition digitChar :: "nat \<Rightarrow> char" where
  "digitChar d = char_of (48 + d)"

fun natToString :: "nat \<Rightarrow> string" where
  "natToString n =
     (if n < 10 then [digitChar n] else natToString (n div 10) @ [digitChar (n mod 10)])"

declare natToString.simps [simp del]

definition numberToString :: "int \<Rightarrow> string" where
  "numberToString n =
     (if n < 0 then CHR ''-'' # natToString (nat (- n)) else natToString (nat n))"

definition coordToString :: "Coordinate \<Rightarrow> string" where
  "coordToString c = numberToString (row c) @ '','' @ numberToString (col c)"

definition isDigit :: "char \<Rightarrow> bool" where
  "isDigit c = (48 \<le> (of_char c :: nat) \<and> (of_char c :: nat) \<le> 57)"

definition digitVal :: "char \<Rightarrow> nat" where
  "digitVal c = of_char c - 48"

definition parseDigits :: "string \<Rightarrow> nat option" where
  "parseDigits s =
     (if s \<noteq> [] \<and> list_all isDigit s
      then Some (foldl (\<lambda>a c. 10 * a + digitVal c) 0 s) else None)"

definition Number :: "string \<Rightarrow> int option" where
  "Number s =
     (case s of
        [] \<Rightarrow> Some 0
      | c # cs \<Rightarrow>
          if c = CHR ''-'' then map_option (\<lambda>n. - int n) (parseDigits cs)
          else map_option int (parseDigits s))"

fun split :: "string \<Rightarrow> char \<Rightarrow> string list" where
  "split [] sep = [[]]"
| "split (c # cs) sep =
     (if c = sep then [] # split cs sep
      else (case split cs sep of [] \<Rightarrow> [[c]] | p # ps \<Rightarrow> (c # p) # ps))"

definition stringToCoord :: "string \<Rightarrow> Coordinate option" where
  "stringToCoord s =
     (case map Number (split s CHR '','') of
        Some r # Some c # _ \<Rightarrow> Some \<lparr>row = r, col = c\<rparr>
      | _ \<Rightarrow> None)"

definition isValid :: "Coordinate \<Rightarrow> GridDimensions \<Rightarrow> bool" where
  "isValid c dims = (row c \<ge> 0 \<and> row c < rows dims \<and> col c \<ge> 0 \<and> col c < cols dims)"


section \<open>PriorityQueue: a binary min-heap in an array\<close>

text \<open>
  A priority is a JavaScript \<open>number\<close>.  Numbers are integers in this development, and
  for priorities the model also keeps the one number on which the comparisons of the queue
  are not those of an order: every comparison with \<open>NaN\<close> is false, so that
  \<open>x \<ge> NaN\<close> and \<open>x < NaN\<close> both fail.  \<open>num_ge\<close> is the operator \<open>>=\<close> of bubbleUp,
  \<open>num_less\<close> the operator \<open><\<close> of sinkDown.
\<close>

datatype number = Num int | NaN

fun num_ge :: "number \<Rightarrow> number \<Rightarrow> bool" where
  "num_ge (Num a) (Num b) = (a \<ge> b)"
| "num_ge _ _ = False"

fun num_less :: "number \<Rightarrow> number \<Rightarrow> bool" where
  "num_less (Num a) (Num b) = (a < b)"
| "num_less _ _ = False"

text \<open>
  The queue is its array \<open>heap\<close>; every method takes the array and returns the new
  one.  \<open>bubbleUp\<close> and \<open>sinkDown\<close> are private and are only called with an index
  inside the array (the last index after a push, index 0 of a non-empty array), so that
  every read \<open>heap ! i\<close> below is in range.
\<close>

record 'a PQItem =
  item :: 'a
  priority :: number

definition isEmpty :: "'a PQItem list \<Rightarrow> bool" where
  "isEmpty heap = (length heap = 0)"

function bubbleUp_loop :: "'a PQItem \<Rightarrow> 'a PQItem list \<Rightarrow> nat \<Rightarrow> 'a PQItem list" where
  "bubbleUp_loop element heap index =
     (if index > 0 then
        (let parentIdx = (index + 1) div 2 - 1;
             parent = heap ! parentIdx
         in if num_ge (priority element) (priority parent) then heap
            else bubbleUp_loop element (heap[parentIdx := element, index := parent]) parentIdx)
      else heap)"
  by pat_completeness auto
termination
  by (relation "measure (\<lambda>(element, heap, index). index)") auto

declare bubbleUp_loop.simps [simp del]

definition bubbleUp :: "'a PQItem list \<Rightarrow> nat \<Rightarrow> 'a PQItem list" where
  "bubbleUp heap n = bubbleUp_loop (heap ! n) heap n"

definition enqueue :: "'a PQItem list \<Rightarrow> 'a \<Rightarrow> number \<Rightarrow> 'a PQItem list" where
  "enqueue heap x p =
     (let node = \<lparr>item = x, priority = p\<rparr>;
          heap1 = heap @ [node]
      in bubbleUp heap1 (length heap1 - 1))"

function sinkDown_loop :: "'a PQItem \<Rightarrow> 'a PQItem list \<Rightarrow> nat \<Rightarrow> 'a PQItem list" where
  "sinkDown_loop element heap index =
     (let leftChildIdx = 2 * (index + 1) - 1;
          rightChildIdx = 2 * (index + 1);
          swap0 = (if leftChildIdx < length heap
                      \<and> num_less (priority (heap ! leftChildIdx)) (priority element)
                   then Some leftChildIdx else None);
          swap = (if rightChildIdx < length heap
                     \<and> ((swap0 = None \<and> num_less (priority (heap ! rightChildIdx)) (priority element))
                        \<or> (swap0 \<noteq> None
                            \<and> num_less (priority (heap ! rightChildIdx)) (priority (heap ! leftChildIdx))))
                  then Some rightChildIdx else swap0)
      in case swap of
           None \<Rightarrow> heap
         | Some s \<Rightarrow> sinkDown_loop element (heap[index := heap ! s, s := element]) s)"
  by pat_completeness auto
termination
  apply (relation "measure (\<lambda>(element, heap, index). length heap - index)")
   apply (auto split: if_splits)
  done

declare sinkDown_loop.simps [simp del]

definition sinkDown :: "'a PQItem list \<Rightarrow> nat \<Rightarrow> 'a PQItem list" where
  "sinkDown heap n = sinkDown_loop (heap ! n) heap n"

definition dequeue :: "'a PQItem list \<Rightarrow> 'a option \<times> 'a PQItem list" where
  "dequeue heap =
     (if isEmpty heap then (None, heap)
      else
        (let min = heap ! 0;
             end = last heap;
             heap1 = butlast heap;
             heap2 = (if length heap1 > 0 then sinkDown (heap1[0 := end]) 0 else heap1)
         in (Some (item min), heap2)))"



text \<open>
  The use of the queue that the specification describes: \<open>enqueueAll\<close> enqueues a
  list of (item, priority) pairs in order, \<open>drain n\<close> calls dequeue \<open>n\<close> times and
  collects the returned values together with the queue that is left.
\<close>

primrec drain :: "nat \<Rightarrow> 'a PQItem list \<Rightarrow> 'a option list \<times> 'a PQItem list" where
  "drain 0 heap = ([], heap)"
| "drain (Suc n) heap =
     (let (x, heap1) = dequeue heap;
          (xs, heap2) = drain n heap1
      in (x # xs, heap2))"

definition enqueueAll :: "('a \<times> number) list \<Rightarrow> 'a PQItem list \<Rightarrow> 'a PQItem list" where
  "enqueueAll xs heap = fold (\<lambda>(x, p) h. enqueue h x p) xs heap"


section \<open>Search engine: the four algorithms\<close>

text \<open>
  Every entry point answers \<open>Some trace\<close> when the call returns its list of snapshots.
  \<open>None\<close> stands for a call that returns no trace in the integer model: it runs forever,
  it throws (\<open>dequeue()!\<close> on an empty heap), or it meets a key that does not decode to
  integers.  The local variables of each entry point are the fields of a record that the
  loop passes on; a snapshot copies the sets, which are values here.  The variables
  \<open>current\<close>, \<open>depth\<close> and \<open>path\<close> of the source are written \<open>cur\<close>, \<open>dpt\<close>
  and \<open>pth\<close>, since their names are those of the snapshot fields; \<open>nextCoord\<close> is
  the neighbour \<open>{row: current.row + dir.row, col: current.col + dir.col}\<close>.
\<close>

definition nextCoord :: "Coordinate \<Rightarrow> Coordinate \<Rightarrow> Coordinate" where
  "nextCoord cur dir = \<lparr>row = row cur + row dir, col = col cur + col dir\<rparr>"

partial_function (option) reconstructPath_loop ::
  "(string \<rightharpoonup> string) \<Rightarrow> Coordinate list \<Rightarrow> string option \<Rightarrow> Coordinate list option" where
  "reconstructPath_loop parentMap pth cur =
     (case cur of
        None \<Rightarrow> Some pth
      | Some k \<Rightarrow>
          if k = [] then Some pth
          else (case stringToCoord k of
                  None \<Rightarrow> None
                | Some c \<Rightarrow> reconstructPath_loop parentMap (c # pth) (parentMap k)))"

declare reconstructPath_loop.simps [code]

definition reconstructPath :: "(string \<rightharpoonup> string) \<Rightarrow> string \<Rightarrow> Coordinate list option" where
  "reconstructPath parentMap end = reconstructPath_loop parentMap [] (Some end)"

subsection \<open>runBFS\<close>

record BFSState =
  bfs_steps :: "AlgoStep list"
  bfs_queue :: "Coordinate list"
  bfs_visited :: "string set"
  bfs_parentMap :: "string \<rightharpoonup> string"
  bfs_frontier :: "string set"

definition bfs_visit :: "GridDimensions \<Rightarrow> Coordinate \<Rightarrow> Coordinate \<Rightarrow> BFSState \<Rightarrow> BFSState" where
  "bfs_visit dims cur dir st =
     (let next = nextCoord cur dir;
          nextStr = coordToString next
      in if isValid next dims \<and> nextStr \<notin> bfs_visited st
         then st\<lparr>bfs_visited := insert nextStr (bfs_visited st),
                 bfs_parentMap := (bfs_parentMap st)(nextStr \<mapsto> coordToString cur),
                 bfs_frontier := insert nextStr (bfs_frontier st),
                 bfs_queue := bfs_queue st @ [next]\<rparr>
         else st)"

partial_function (option) bfs_loop ::
  "GridDimensions \<Rightarrow> string \<Rightarrow> BFSState \<Rightarrow> AlgoStep list option" where
  "bfs_loop dims goalStr st =
     (case bfs_queue st of
        [] \<Rightarrow> Some (bfs_steps st)
      | cur # rest \<Rightarrow>
          (let currStr = coordToString cur;
               frontier1 = bfs_frontier st - {currStr};
               steps1 = bfs_steps st @
                 [\<lparr>visited = bfs_visited st, frontier = frontier1, current = Some cur,
                   path = None, depth = None, costMap = None\<rparr>]
           in if currStr = goalStr
              then (case reconstructPath (bfs_parentMap st) goalStr of
                      None \<Rightarrow> None
                    | Some pth \<Rightarrow>
                        Some (steps1 @
                          [\<lparr>visited = bfs_visited st, frontier = frontier1, current = None,
                            path = Some pth, depth = None, costMap = None\<rparr>]))
              else bfs_loop dims goalStr
                     (fold (bfs_visit dims cur) DIRECTIONS
                        (st\<lparr>bfs_queue := rest, bfs_frontier := frontier1,
                            bfs_steps := steps1\<rparr>))))"

declare bfs_loop.simps [code]

definition runBFS :: "GridDimensions \<Rightarrow> Coordinate \<Rightarrow> Coordinate \<Rightarrow> AlgoStep list option" where
  "runBFS dims start goal =
     (let startStr = coordToString start;
          goalStr = coordToString goal
      in bfs_loop dims goalStr
           \<lparr>bfs_steps = [], bfs_queue = [start], bfs_visited = {startStr},
            bfs_parentMap = Map.empty, bfs_frontier = {startStr}\<rparr>)"

subsection \<open>runDFSRecursive\<close>

text \<open>
  The inner function \<open>dfs\<close> and its loop over the directions are one recursive
  function: the argument \<open>pending\<close> is \<open>None\<close> at the entry of \<open>dfs(current, depth)\<close>
  and \<open>Some dirs\<close> inside the loop, with the directions still to try.  An empty
  \<open>dirs\<close> is the code after the loop (the backtracking snapshot); the \<open>return\<close>
  inside the loop leaves without it.
\<close>

record DFSState =
  dfs_steps :: "AlgoStep list"
  dfs_visited :: "string set"
  dfs_parentMap :: "string \<rightharpoonup> string"
  dfs_recursionStack :: "string set"
  dfs_found :: bool

partial_function (option) dfs ::
  "GridDimensions \<Rightarrow> string \<Rightarrow> Coordinate \<Rightarrow> int \<Rightarrow> Coordinate list option
     \<Rightarrow> DFSState \<Rightarrow> DFSState option" where
  "dfs dims goalStr cur dpt pending st =
     (case pending of
        None \<Rightarrow>
          if dfs_found st then Some st
          else
            (let currStr = coordToString cur;
                 st1 = st\<lparr>dfs_visited := insert currStr (dfs_visited st),
                          dfs_recursionStack := insert currStr (dfs_recursionStack st)\<rparr>;
                 st2 = st1\<lparr>dfs_steps := dfs_steps st1 @
                          [\<lparr>visited = dfs_visited st1, frontier = dfs_recursionStack st1,
                            current = Some cur, path = None, depth = Some dpt,
                            costMap = None\<rparr>]\<rparr>
             in if currStr = goalStr
                then (case reconstructPath (dfs_parentMap st2) goalStr of
                        None \<Rightarrow> None
                      | Some pth \<Rightarrow>
                          Some (st2\<lparr>dfs_found := True,
                                    dfs_steps := dfs_steps st2 @
                                      [\<lparr>visited = dfs_visited st2,
                                        frontier = dfs_recursionStack st2, current = None,
                                        path = Some pth, depth = None, costMap = None\<rparr>]\<rparr>))
                else dfs dims goalStr cur dpt (Some DIRECTIONS) st2)
      | Some [] \<Rightarrow>
          (let currStr = coordToString cur;
               st1 = st\<lparr>dfs_recursionStack := dfs_recursionStack st - {currStr}\<rparr>
           in Some (st1\<lparr>dfs_steps := dfs_steps st1 @
                      [\<lparr>visited = dfs_visited st1, frontier = dfs_recursionStack st1,
                        current = Some cur, path = None, depth = Some (dpt - 1),
                        costMap = None\<rparr>]\<rparr>))
      | Some (dir # rest) \<Rightarrow>
          if dfs_found st then Some st
          else
            (let next = nextCoord cur dir;
                 nextStr = coordToString next
             in if isValid next dims \<and> nextStr \<notin> dfs_visited st
                then Option.bind
                       (dfs dims goalStr next (dpt + 1) None
                          (st\<lparr>dfs_parentMap :=
                               (dfs_parentMap st)(nextStr \<mapsto> coordToString cur)\<rparr>))
                       (\<lambda>st'. dfs dims goalStr cur dpt (Some rest) st')
                else dfs dims goalStr cur dpt (Some rest) st))"

declare dfs.simps [code]

definition runDFSRecursive ::
  "GridDimensions \<Rightarrow> Coordinate \<Rightarrow> Coordinate \<Rightarrow> AlgoStep list option" where
  "runDFSRecursive dims start goal =
     (let goalStr = coordToString goal
      in map_option dfs_steps
           (dfs dims goalStr start 0 None
              \<lparr>dfs_steps = [], dfs_visited = {}, dfs_parentMap = Map.empty,
               dfs_recursionStack = {}, dfs_found = False\<rparr>))"

subsection \<open>runDijkstra\<close>

record DijkstraState =
  dij_steps :: "AlgoStep list"
  dij_pq :: "string PQItem list"
  dij_distances :: "string \<rightharpoonup> int"
  dij_parentMap :: "string \<rightharpoonup> string"
  dij_visited :: "string set"
  dij_frontier :: "string set"

text \<open>
  \<open>distances.get(currStr) || 0\<close> reads an unknown distance (and the distance 0) as 0;
  \<open>distances.get(nextStr) ?? Infinity\<close> makes every new distance smaller than an
  unknown one.  The coordinate \<open>current\<close> is decoded from the key taken from the queue.
  For a key that does not decode to integers the source goes on with NaN components, for
  which \<open>isValid\<close> is false in every direction: the model then records no current
  coordinate in the snapshot and relaxes no neighbour.  \<open>pq.dequeue()!\<close> cannot be
  undefined after the test \<open>!pq.isEmpty()\<close>; the model gives that case the value
  \<open>None\<close> of a call that throws.  The priorities this function and runAStar enqueue
  are integers (0, a distance, a cost plus a Manhattan distance), entered into the queue
  as \<open>Num\<close>.
\<close>

definition dij_relax ::
  "GridDimensions \<Rightarrow> string \<Rightarrow> Coordinate \<Rightarrow> Coordinate \<Rightarrow> DijkstraState \<Rightarrow> DijkstraState" where
  "dij_relax dims currStr cur dir st =
     (let next = nextCoord cur dir;
          nextStr = coordToString next
      in if isValid next dims
         then
           (let newDist = (case dij_distances st currStr of None \<Rightarrow> 0 | Some d \<Rightarrow> d) + 1
            in if (case dij_distances st nextStr of None \<Rightarrow> True | Some d \<Rightarrow> newDist < d)
               then st\<lparr>dij_distances := (dij_distances st)(nextStr \<mapsto> newDist),
                       dij_parentMap := (dij_parentMap st)(nextStr \<mapsto> currStr),
                       dij_pq := enqueue (dij_pq st) nextStr (Num newDist),
                       dij_frontier := insert nextStr (dij_frontier st)\<rparr>
               else st)
         else st)"

partial_function (option) dij_loop ::
  "GridDimensions \<Rightarrow> string \<Rightarrow> DijkstraState \<Rightarrow> AlgoStep list option" where
  "dij_loop dims goalStr st =
     (if isEmpty (dij_pq st) then Some (dij_steps st)
      else
        (case dequeue (dij_pq st) of
           (None, pq1) \<Rightarrow> None
         | (Some currStr, pq1) \<Rightarrow>
             (let cur = stringToCoord currStr;
                  frontier1 = dij_frontier st - {currStr};
                  visited1 = insert currStr (dij_visited st);
                  steps1 = dij_steps st @
                    [\<lparr>visited = visited1, frontier = frontier1, current = cur,
                      path = None, depth = None, costMap = Some (dij_distances st)\<rparr>]
              in if currStr = goalStr
                 then (case reconstructPath (dij_parentMap st) goalStr of
                         None \<Rightarrow> None
                       | Some pth \<Rightarrow>
                           Some (steps1 @
                             [\<lparr>visited = visited1, frontier = frontier1, current = None,
                               path = Some pth, depth = None,
                               costMap = Some (dij_distances st)\<rparr>]))
                 else dij_loop dims goalStr
                        (let st1 = st\<lparr>dij_pq := pq1, dij_frontier := frontier1,
                                        dij_visited := visited1, dij_steps := steps1\<rparr>
                         in case cur of
                              None \<Rightarrow> st1
                            | Some c \<Rightarrow> fold (dij_relax dims currStr c) DIRECTIONS st1))))"

declare dij_loop.simps [code]

definition runDijkstra ::
  "GridDimensions \<Rightarrow> Coordinate \<Rightarrow> Coordinate \<Rightarrow> AlgoStep list option" where
  "runDijkstra dims start goal =
     (let startStr = coordToString start;
          goalStr = coordToString goal
      in dij_loop dims goalStr
           \<lparr>dij_steps = [], dij_pq = enqueue [] startStr (Num 0),
            dij_distances = [startStr \<mapsto> 0], dij_parentMap = Map.empty,
            dij_visited = {}, dij_frontier = {startStr}\<rparr>)"

subsection \<open>runAStar\<close>

record AStarState =
  ast_steps :: "AlgoStep list"
  ast_pq :: "string PQItem list"
  ast_gScore :: "string \<rightharpoonup> int"
  ast_parentMap :: "string \<rightharpoonup> string"
  ast_visited :: "string set"
  ast_frontier :: "string set"

definition heuristic :: "Coordinate \<Rightarrow> Coordinate \<Rightarrow> int" where
  "heuristic a b = \<bar>row a - row b\<bar> + \<bar>col a - col b\<bar>"

definition ast_relax ::
  "GridDimensions \<Rightarrow> Coordinate \<Rightarrow> string \<Rightarrow> Coordinate \<Rightarrow> Coordinate \<Rightarrow> AStarState
     \<Rightarrow> AStarState" where
  "ast_relax dims goal currStr cur dir st =
     (let next = nextCoord cur dir;
          nextStr = coordToString next
      in if isValid next dims
         then
           (let tentativeG = (case ast_gScore st currStr of None \<Rightarrow> 0 | Some g \<Rightarrow> g) + 1
            in if (case ast_gScore st nextStr of None \<Rightarrow> True | Some g \<Rightarrow> tentativeG < g)
               then
                 (let fScore = tentativeG + heuristic next goal
                  in st\<lparr>ast_parentMap := (ast_parentMap st)(nextStr \<mapsto> currStr),
                        ast_gScore := (ast_gScore st)(nextStr \<mapsto> tentativeG),
                        ast_pq := enqueue (ast_pq st) nextStr (Num fScore),
                        ast_frontier := insert nextStr (ast_frontier st)\<rparr>)
               else st)
         else st)"

partial_function (option) ast_loop ::
  "GridDimensions \<Rightarrow> Coordinate \<Rightarrow> string \<Rightarrow> AStarState \<Rightarrow> AlgoStep list option" where
  "ast_loop dims goal goalStr st =
     (if isEmpty (ast_pq st) then Some (ast_steps st)
      else
        (case dequeue (ast_pq st) of
           (None, pq1) \<Rightarrow> None
         | (Some currStr, pq1) \<Rightarrow>
             (let cur = stringToCoord currStr;
                  frontier1 = ast_frontier st - {currStr};
                  visited1 = insert currStr (ast_visited st);
                  steps1 = ast_steps st @
                    [\<lparr>visited = visited1, frontier = frontier1, current = cur,
                      path = None, depth = None, costMap = Some (ast_gScore st)\<rparr>]
              in if currStr = goalStr
                 then (case reconstructPath (ast_parentMap st) goalStr of
                         None \<Rightarrow> None
                       | Some pth \<Rightarrow>
                           Some (steps1 @
                             [\<lparr>visited = visited1, frontier = frontier1, current = None,
                               path = Some pth, depth = None,
                               costMap = Some (ast_gScore st)\<rparr>]))
                 else ast_loop dims goal goalStr
                        (let st1 = st\<lparr>ast_pq := pq1, ast_frontier := frontier1,
                                        ast_visited := visited1, ast_steps := steps1\<rparr>
                         in case cur of
                              None \<Rightarrow> st1
                            | Some c \<Rightarrow> fold (ast_relax dims goal currStr c) DIRECTIONS st1))))"

declare ast_loop.simps [code]

definition runAStar ::
  "GridDimensions \<Rightarrow> Coordinate \<Rightarrow> Coordinate \<Rightarrow> AlgoStep list option" where
  "runAStar dims start goal =
     (let startStr = coordToString start;
          goalStr = coordToString goal
      in ast_loop dims goal goalStr
           \<lparr>ast_steps = [], ast_pq = enqueue [] startStr (Num 0),
            ast_gScore = [startStr \<mapsto> 0], ast_parentMap = Map.empty,
            ast_visited = {}, ast_frontier = {startStr}\<rparr>)"


section \<open>Round trip of the key encoding\<close>

lemma isDigit_digitChar: "d < 10 \<Longrightarrow> isDigit (digitChar d)"
  by (simp add: isDigit_def digitChar_def)

lemma digitVal_digitChar: "d < 10 \<Longrightarrow> digitVal (digitChar d) = d"
  by (simp add: digitVal_def digitChar_def)

lemma digitChar_not_sep: "d < 10 \<Longrightarrow> digitChar d \<noteq> CHR '',''"
proof
  assume d: "d < 10" and e: "digitChar d = CHR '',''"
  have "(of_char (digitChar d) :: nat) = 48 + d"
    using d by (simp add: digitChar_def)
  with e show False by simp
qed

lemma digitChar_not_minus: "d < 10 \<Longrightarrow> digitChar d \<noteq> CHR ''-''"
proof
  assume d: "d < 10" and e: "digitChar d = CHR ''-''"
  have "(of_char (digitChar d) :: nat) = 48 + d"
    using d by (simp add: digitChar_def)
  with e show False by simp
qed

lemma natToString_digits: "list_all isDigit (natToString n)"
proof (induction n rule: natToString.induct)
  case (1 n)
  show ?case
  proof (cases "n < 10")
    case True
    then show ?thesis by (subst natToString.simps) (simp add: isDigit_digitChar)
  next
    case False
    then show ?thesis
      using 1 by (subst natToString.simps) (simp add: isDigit_digitChar)
  qed
qed

lemma natToString_nonempty: "natToString n \<noteq> []"
  by (subst natToString.simps) simp

lemma natToString_no_sep: "CHR '','' \<notin> set (natToString n)"
proof (induction n rule: natToString.induct)
  case (1 n)
  show ?case
  proof (cases "n < 10")
    case True
    then show ?thesis
      using digitChar_not_sep [of n] by (subst natToString.simps) auto
  next
    case False
    then show ?thesis
      using 1 digitChar_not_sep [of "n mod 10"] by (subst natToString.simps) auto
  qed
qed

lemma natToString_hd_not_minus: "hd (natToString n) \<noteq> CHR ''-''"
proof (induction n rule: natToString.induct)
  case (1 n)
  show ?case
  proof (cases "n < 10")
    case True
    then show ?thesis
      using digitChar_not_minus [of n] by (subst natToString.simps) simp
  next
    case False
    then show ?thesis
      using 1 natToString_nonempty [of "n div 10"] by (subst natToString.simps) simp
  qed
qed

lemma foldl_natToString:
  "foldl (\<lambda>a c. 10 * a + digitVal c) 0 (natToString n) = n"
proof (induction n rule: natToString.induct)
  case (1 n)
  show ?case
  proof (cases "n < 10")
    case True
    then show ?thesis by (subst natToString.simps) (simp add: digitVal_digitChar)
  next
    case False
    then show ?thesis
      using 1 by (subst natToString.simps) (simp add: digitVal_digitChar)
  qed
qed

lemma parseDigits_natToString: "parseDigits (natToString n) = Some n"
  by (simp add: parseDigits_def natToString_digits natToString_nonempty foldl_natToString)

lemma Number_numberToString: "Number (numberToString n) = Some n"
proof (cases "n < 0")
  case True
  then show ?thesis
    by (simp add: Number_def numberToString_def parseDigits_natToString)
next
  case False
  obtain c cs where s: "natToString (nat n) = c # cs"
    using natToString_nonempty [of "nat n"] by (cases "natToString (nat n)") auto
  have "c \<noteq> CHR ''-''"
    using natToString_hd_not_minus [of "nat n"] s by simp
  moreover have "parseDigits (c # cs) = Some (nat n)"
    using parseDigits_natToString [of "nat n"] s by simp
  ultimately show ?thesis
    using False s by (simp add: Number_def numberToString_def)
qed

lemma numberToString_no_sep: "CHR '','' \<notin> set (numberToString n)"
  by (simp add: numberToString_def natToString_no_sep)

lemma split_no_sep: "sep \<notin> set s \<Longrightarrow> split s sep = [s]"
  by (induction s) auto

lemma split_at_sep: "sep \<notin> set a \<Longrightarrow> split (a @ sep # b) sep = a # split b sep"
  by (induction a) auto

lemma split_coordToString:
  "split (coordToString c) CHR '','' = [numberToString (row c), numberToString (col c)]"
  by (simp add: coordToString_def split_at_sep split_no_sep numberToString_no_sep)

lemma stringToCoord_coordToString: "stringToCoord (coordToString c) = Some c"
  by (simp add: stringToCoord_def split_coordToString Number_numberToString)

lemma coordToString_inj: "coordToString a = coordToString b \<Longrightarrow> a = b"
  by (metis option.inject stringToCoord_coordToString)

lemma coordToString_eq_iff [simp]: "coordToString a = coordToString b \<longleftrightarrow> a = b"
  using coordToString_inj by blast

text \<open>
  Claim C8.  For every valid coordinate \<open>c\<close> of the grid (\<open>0 \<le> row < rows\<close> and
  \<open>0 \<le> col < cols\<close>), decoding the key that encodes \<open>c\<close> gives \<open>c\<close> back.
\<close>

theorem C8_decode_encode:
  "isValid c dims \<Longrightarrow> stringToCoord (coordToString c) = Some c"
  by (rule stringToCoord_coordToString)

theorem C8_decode_encode_witness:
  "isValid \<lparr>row = 2, col = 13\<rparr> \<lparr>rows = 5, cols = 20\<rparr>
   \<and> stringToCoord (coordToString \<lparr>row = 2, col = 13\<rparr>) = Some \<lparr>row = 2, col = 13\<rparr>"
  using C8_decode_encode [of "\<lparr>row = 2, col = 13\<rparr>" "\<lparr>rows = 5, cols = 20\<rparr>"]
  by (simp add: isValid_def)


section \<open>The heap order and the multiset of entries\<close>

definition parentOf :: "nat \<Rightarrow> nat" where
  "parentOf i = (i + 1) div 2 - 1"

text \<open>
  \<open>prio\<close> reads the integer of a priority that is not NaN; \<open>nonan\<close> says that no
  entry of the array has the priority NaN.  \<open>heap_ord\<close> is the heap order on these
  integers, and \<open>heap_ok\<close> a heap without NaN in that order.
\<close>

definition prio :: "'a PQItem \<Rightarrow> int" where
  "prio e = (case priority e of Num n \<Rightarrow> n | NaN \<Rightarrow> 0)"

definition nonan :: "'a PQItem list \<Rightarrow> bool" where
  "nonan heap \<longleftrightarrow> (\<forall>e \<in> set heap. priority e \<noteq> NaN)"

definition heap_ord :: "'a PQItem list \<Rightarrow> bool" where
  "heap_ord heap \<longleftrightarrow>
     (\<forall>i. 0 < i \<and> i < length heap
        \<longrightarrow> prio (heap ! parentOf i) \<le> prio (heap ! i))"

definition heap_ok :: "'a PQItem list \<Rightarrow> bool" where
  "heap_ok heap \<longleftrightarrow> nonan heap \<and> heap_ord heap"

lemma prio_Num [simp]: "prio \<lparr>item = x, priority = Num n\<rparr> = n"
  by (simp add: prio_def)

lemma Num_prio: "priority e \<noteq> NaN \<Longrightarrow> Num (prio e) = priority e"
  by (cases "priority e") (simp_all add: prio_def)

lemma num_ge_prio:
  "priority a \<noteq> NaN \<Longrightarrow> priority b \<noteq> NaN
   \<Longrightarrow> num_ge (priority a) (priority b) \<longleftrightarrow> prio b \<le> prio a"
  by (cases "priority a"; cases "priority b") (simp_all add: prio_def)

lemma num_less_prio:
  "priority a \<noteq> NaN \<Longrightarrow> priority b \<noteq> NaN
   \<Longrightarrow> num_less (priority a) (priority b) \<longleftrightarrow> prio a < prio b"
  by (cases "priority a"; cases "priority b") (simp_all add: prio_def)

lemma nonan_nth: "nonan h \<Longrightarrow> i < length h \<Longrightarrow> priority (h ! i) \<noteq> NaN"
  by (simp add: nonan_def)

lemma nonan_mset: "mset g = mset h \<Longrightarrow> nonan g \<longleftrightarrow> nonan h"
  unfolding nonan_def by (metis set_mset_mset)

lemma nonan_swap:
  "nonan h \<Longrightarrow> i < length h \<Longrightarrow> j < length h \<Longrightarrow> nonan (h[i := h ! j, j := h ! i])"
  using nonan_mset [OF mset_swap [of j h i]] by simp

lemma parentOf_less: "0 < i \<Longrightarrow> parentOf i < i"
  by (simp add: parentOf_def)

lemma parentOf_child: "0 < i \<Longrightarrow> parentOf i = k \<longleftrightarrow> i = 2 * (k + 1) - 1 \<or> i = 2 * (k + 1)"
  by (simp add: parentOf_def) arith

lemma length_bubbleUp_loop: "length (bubbleUp_loop e h i) = length h"
proof (induction e h i rule: bubbleUp_loop.induct)
  case (1 element heap index)
  show ?case
    using 1 by (subst bubbleUp_loop.simps) (simp add: Let_def)
qed

lemma mset_bubbleUp_loop:
  "i < length h \<Longrightarrow> h ! i = e \<Longrightarrow> mset (bubbleUp_loop e h i) = mset h"
proof (induction e h i rule: bubbleUp_loop.induct)
  case (1 element heap index)
  show ?case
  proof (cases "index > 0 \<and> \<not> num_ge (priority element) (priority (heap ! parentOf index))")
    case False
    then show ?thesis
      by (subst bubbleUp_loop.simps) (auto simp: Let_def parentOf_def)
  next
    case True
    let ?p = "parentOf index"
    let ?h = "heap[?p := element, index := heap ! ?p]"
    have p: "?p < index" using True parentOf_less by simp
    have "bubbleUp_loop element heap index = bubbleUp_loop element ?h ?p"
      using True by (subst bubbleUp_loop.simps) (simp add: Let_def parentOf_def)
    moreover have "mset (bubbleUp_loop element ?h ?p) = mset ?h"
      using 1 True p
      by (intro "1.IH" [of ?p "heap ! ?p", unfolded parentOf_def [symmetric]])
         (auto simp: parentOf_def)
    moreover have "mset ?h = mset heap"
      using mset_swap [of index heap ?p] p "1.prems" by simp
    ultimately show ?thesis by simp
  qed
qed


definition almost_up :: "'a PQItem list \<Rightarrow> nat \<Rightarrow> bool" where
  "almost_up h k \<longleftrightarrow>
     (\<forall>i. 0 < i \<and> i < length h \<and> i \<noteq> k \<longrightarrow> prio (h ! parentOf i) \<le> prio (h ! i))
     \<and> (0 < k \<longrightarrow> (\<forall>i. 0 < i \<and> i < length h \<and> parentOf i = k
            \<longrightarrow> prio (h ! parentOf k) \<le> prio (h ! i)))"

lemma almost_up_step:
  assumes k: "0 < k" "k < length h"
    and au: "almost_up h k"
    and lt: "prio (h ! k) < prio (h ! parentOf k)"
  shows "almost_up (h[parentOf k := h ! k, k := h ! parentOf k]) (parentOf k)"
proof -
  let ?p = "parentOf k"
  let ?h = "h[?p := h ! k, k := h ! ?p]"
  have pk: "?p < k" using k parentOf_less by simp
  have A: "\<And>i. 0 < i \<Longrightarrow> i < length h \<Longrightarrow> i \<noteq> k \<Longrightarrow> prio (h ! parentOf i) \<le> prio (h ! i)"
    using au by (simp add: almost_up_def)
  have B: "\<And>i. 0 < i \<Longrightarrow> i < length h \<Longrightarrow> parentOf i = k \<Longrightarrow> prio (h ! ?p) \<le> prio (h ! i)"
    using au k by (simp add: almost_up_def)
  have first: "prio (?h ! parentOf i) \<le> prio (?h ! i)"
    if i: "0 < i" "i < length ?h" "i \<noteq> ?p" for i
  proof -
    have il: "i < length h" using i by simp
    have pil: "parentOf i < length h" using parentOf_less [OF i(1)] il by simp
    consider "i = k" | "i \<noteq> k" "parentOf i = k" | "i \<noteq> k" "parentOf i = ?p"
      | "i \<noteq> k" "parentOf i \<noteq> k" "parentOf i \<noteq> ?p" by blast
    then show ?thesis
    proof cases
      case 1
      then show ?thesis using pk k lt by simp
    next
      case 2
      then show ?thesis using B [OF i(1) il] i pk k il by (simp add: nth_list_update)
    next
      case 3
      then show ?thesis using A [OF i(1) il] i pk k il lt by (simp add: nth_list_update)
    next
      case 4
      then show ?thesis using A [OF i(1) il] i pil il by (simp add: nth_list_update)
    qed
  qed
  have second: "prio (?h ! parentOf ?p) \<le> prio (?h ! i)"
    if pp: "0 < ?p" and i: "0 < i" "i < length ?h" "parentOf i = ?p" for i
  proof -
    have il: "i < length h" using i by simp
    have ppk: "parentOf ?p < ?p" using pp parentOf_less by simp
    have ip: "?p < i" using parentOf_less [OF i(1)] i(3) by simp
    have gp: "prio (h ! parentOf ?p) \<le> prio (h ! ?p)"
      using A [of ?p] pp pk k by simp
    have "prio (h ! ?p) \<le> prio (?h ! i)"
    proof (cases "i = k")
      case True
      then show ?thesis using k by simp
    next
      case False
      then show ?thesis using A [OF i(1) il False] i(3) ip il by (simp add: nth_list_update)
    qed
    moreover have "?h ! parentOf ?p = h ! parentOf ?p"
      using ppk pk by (simp add: nth_list_update)
    ultimately show ?thesis using gp by simp
  qed
  show ?thesis
    unfolding almost_up_def using first second by blast
qed

lemma heap_ord_bubbleUp_loop:
  "i < length h \<Longrightarrow> h ! i = e \<Longrightarrow> almost_up h i \<Longrightarrow> nonan h
   \<Longrightarrow> heap_ord (bubbleUp_loop e h i)"
proof (induction e h i rule: bubbleUp_loop.induct)
  case (1 element heap index)
  have ne: "priority element \<noteq> NaN"
    using nonan_nth [of heap index] "1.prems" by simp
  have np: "priority (heap ! parentOf index) \<noteq> NaN" if "0 < index"
    using nonan_nth [of heap "parentOf index"] parentOf_less [OF that] "1.prems" by simp
  show ?case
  proof (cases "index > 0 \<and> \<not> num_ge (priority element) (priority (heap ! parentOf index))")
    case False
    have "heap_ord heap"
      unfolding heap_ord_def
    proof (intro allI impI)
      fix i assume i: "0 < i \<and> i < length heap"
      show "prio (heap ! parentOf i) \<le> prio (heap ! i)"
      proof (cases "i = index")
        case True
        then have "num_ge (priority element) (priority (heap ! parentOf index))"
          using False i by simp
        then show ?thesis
          using True i "1.prems" num_ge_prio [OF ne np] by simp
      next
        case False
        then show ?thesis using i "1.prems" by (simp add: almost_up_def)
      qed
    qed
    moreover have "bubbleUp_loop element heap index = heap"
      using False by (subst bubbleUp_loop.simps) (auto simp: Let_def parentOf_def)
    ultimately show ?thesis by simp
  next
    case True
    let ?p = "parentOf index"
    let ?h = "heap[?p := element, index := heap ! ?p]"
    have p: "?p < index" using True parentOf_less by simp
    have eq: "bubbleUp_loop element heap index = bubbleUp_loop element ?h ?p"
      using True by (subst bubbleUp_loop.simps) (simp add: Let_def parentOf_def)
    have lt: "prio (heap ! index) < prio (heap ! ?p)"
      using True "1.prems" num_ge_prio [OF ne np] by simp
    have au: "almost_up ?h ?p"
      using almost_up_step [of index heap] True "1.prems" lt by simp
    have nn: "nonan ?h"
      using nonan_swap [of heap ?p index] "1.prems" p by simp
    have "heap_ord (bubbleUp_loop element ?h ?p)"
      using 1 True p au nn
      by (intro "1.IH" [of ?p "heap ! ?p", unfolded parentOf_def [symmetric]])
         (auto simp: parentOf_def)
    then show ?thesis using eq by simp
  qed
qed

lemma mset_enqueue: "mset (enqueue h x p) = add_mset \<lparr>item = x, priority = p\<rparr> (mset h)"
  using mset_bubbleUp_loop [of "length h" "h @ [\<lparr>item = x, priority = p\<rparr>]" "\<lparr>item = x, priority = p\<rparr>"]
  by (simp add: enqueue_def bubbleUp_def Let_def)

lemma set_enqueue: "set (enqueue h x p) = insert \<lparr>item = x, priority = p\<rparr> (set h)"
proof -
  have "set_mset (mset (enqueue h x p)) = set_mset (add_mset \<lparr>item = x, priority = p\<rparr> (mset h))"
    by (simp only: mset_enqueue)
  then show ?thesis by simp
qed

lemma heap_ok_enqueue: "heap_ok h \<Longrightarrow> p \<noteq> NaN \<Longrightarrow> heap_ok (enqueue h x p)"
proof -
  assume hok: "heap_ok h" and p: "p \<noteq> NaN"
  then have ok: "heap_ord h" and nn: "nonan h" by (simp_all add: heap_ok_def)
  let ?n = "\<lparr>item = x, priority = p\<rparr>"
  have nn1: "nonan (h @ [?n])" using nn p by (simp add: nonan_def)
  have nn2: "nonan (enqueue h x p)" using nn p by (simp add: nonan_def set_enqueue)
  have "almost_up (h @ [?n]) (length h)"
    unfolding almost_up_def
  proof (intro conjI allI impI)
    fix i assume i: "0 < i \<and> i < length (h @ [?n]) \<and> i \<noteq> length h"
    then have il: "i < length h" by simp
    then have "parentOf i < length h" using parentOf_less [of i] i by simp
    then show "prio ((h @ [?n]) ! parentOf i) \<le> prio ((h @ [?n]) ! i)"
      using ok i il by (simp add: heap_ord_def nth_append)
  next
    fix i assume "0 < length h" and i: "0 < i \<and> i < length (h @ [?n]) \<and> parentOf i = length h"
    then have False using parentOf_less [of i] by simp
    then show "prio ((h @ [?n]) ! parentOf (length h)) \<le> prio ((h @ [?n]) ! i)" ..
  qed
  then have "heap_ord (enqueue h x p)"
    using heap_ord_bubbleUp_loop [of "length h" "h @ [?n]" ?n] nn1
    by (simp add: enqueue_def bubbleUp_def Let_def)
  then show ?thesis using nn2 by (simp add: heap_ok_def)
qed


definition swapChoice :: "'a PQItem \<Rightarrow> 'a PQItem list \<Rightarrow> nat \<Rightarrow> nat option" where
  "swapChoice element heap index =
     (let leftChildIdx = 2 * (index + 1) - 1;
          rightChildIdx = 2 * (index + 1);
          swap0 = (if leftChildIdx < length heap
                      \<and> num_less (priority (heap ! leftChildIdx)) (priority element)
                   then Some leftChildIdx else None)
      in if rightChildIdx < length heap
            \<and> ((swap0 = None \<and> num_less (priority (heap ! rightChildIdx)) (priority element))
               \<or> (swap0 \<noteq> None
                   \<and> num_less (priority (heap ! rightChildIdx)) (priority (heap ! leftChildIdx))))
         then Some rightChildIdx else swap0)"

lemma sinkDown_loop_unfold:
  "sinkDown_loop e h k =
     (case swapChoice e h k of None \<Rightarrow> h
      | Some s \<Rightarrow> sinkDown_loop e (h[k := h ! s, s := e]) s)"
  by (subst sinkDown_loop.simps) (simp add: swapChoice_def Let_def)

text \<open>
  Without NaN the choice of sinkDown is the one made on the integers.
\<close>

definition swapChoiceInt :: "'a PQItem \<Rightarrow> 'a PQItem list \<Rightarrow> nat \<Rightarrow> nat option" where
  "swapChoiceInt element heap index =
     (let leftChildIdx = 2 * (index + 1) - 1;
          rightChildIdx = 2 * (index + 1);
          swap0 = (if leftChildIdx < length heap
                      \<and> prio (heap ! leftChildIdx) < prio element
                   then Some leftChildIdx else None)
      in if rightChildIdx < length heap
            \<and> ((swap0 = None \<and> prio (heap ! rightChildIdx) < prio element)
               \<or> (swap0 \<noteq> None
                   \<and> prio (heap ! rightChildIdx) < prio (heap ! leftChildIdx)))
         then Some rightChildIdx else swap0)"

lemma swapChoice_Int:
  assumes nn: "nonan h" and e: "priority e \<noteq> NaN"
  shows "swapChoice e h k = swapChoiceInt e h k"
proof -
  let ?l = "2 * (k + 1) - 1" and ?r = "2 * (k + 1)"
  have l: "num_less (priority (h ! ?l)) (priority e) \<longleftrightarrow> prio (h ! ?l) < prio e"
    if "?l < length h"
    using num_less_prio [OF nonan_nth [OF nn that] e] .
  have r: "num_less (priority (h ! ?r)) (priority e) \<longleftrightarrow> prio (h ! ?r) < prio e"
    if "?r < length h"
    using num_less_prio [OF nonan_nth [OF nn that] e] .
  have rl: "num_less (priority (h ! ?r)) (priority (h ! ?l)) \<longleftrightarrow> prio (h ! ?r) < prio (h ! ?l)"
    if "?r < length h"
  proof -
    have "?l < length h" using that by simp
    then show ?thesis
      using num_less_prio [OF nonan_nth [OF nn that] nonan_nth [OF nn]] by simp
  qed
  show ?thesis
  proof (cases "?r < length h")
    case True
    then have "?l < length h" by simp
    then show ?thesis
      using True l r rl by (simp add: swapChoice_def swapChoiceInt_def Let_def)
  next
    case False
    then show ?thesis
      using l by (cases "?l < length h") (simp_all add: swapChoice_def swapChoiceInt_def Let_def)
  qed
qed

lemma swapChoice_idx:
  assumes "swapChoice e h k = Some s"
  shows "s < length h" and "k < s" and "parentOf s = k"
proof -
  have s: "s = 2 * (k + 1) - 1 \<or> s = 2 * (k + 1)"
    using assms by (auto simp: swapChoice_def Let_def split: if_splits)
  show "s < length h"
    using assms by (auto simp: swapChoice_def Let_def split: if_splits)
  show "k < s" using s by auto
  then show "parentOf s = k" using parentOf_child [of s k] s by simp
qed

lemma swapChoice_None:
  assumes "swapChoice e h k = None" and "0 < i" "i < length h" "parentOf i = k"
    and nn: "nonan h" "priority e \<noteq> NaN"
  shows "prio e \<le> prio (h ! i)"
proof -
  have "i = 2 * (k + 1) - 1 \<or> i = 2 * (k + 1)"
    using parentOf_child [of i k] assms by simp
  moreover have "swapChoiceInt e h k = None"
    using assms(1) swapChoice_Int [OF nn] by simp
  ultimately show ?thesis
    using assms(3) by (auto simp: swapChoiceInt_def Let_def split: if_splits)
qed

lemma swapChoice_Some:
  assumes "swapChoice e h k = Some s" and nn: "nonan h" "priority e \<noteq> NaN"
  shows "s < length h" and "k < s" and "parentOf s = k"
    and "prio (h ! s) < prio e"
    and "\<And>i. 0 < i \<Longrightarrow> i < length h \<Longrightarrow> parentOf i = k \<Longrightarrow> prio (h ! s) \<le> prio (h ! i)"
proof -
  have sc: "swapChoiceInt e h k = Some s"
    using assms(1) swapChoice_Int [OF nn] by simp
  show "s < length h" and "k < s" and "parentOf s = k"
    using swapChoice_idx [OF assms(1)] by simp_all
  show "prio (h ! s) < prio e"
    using sc by (auto simp: swapChoiceInt_def Let_def split: if_splits)
  fix i assume i: "0 < i" "i < length h" "parentOf i = k"
  have "i = 2 * (k + 1) - 1 \<or> i = 2 * (k + 1)"
    using parentOf_child [of i k] i by simp
  then show "prio (h ! s) \<le> prio (h ! i)"
    using sc i(2) by (auto simp: swapChoiceInt_def Let_def split: if_splits)
qed

definition almost_down :: "'a PQItem list \<Rightarrow> nat \<Rightarrow> bool" where
  "almost_down h k \<longleftrightarrow>
     (\<forall>i. 0 < i \<and> i < length h \<and> parentOf i \<noteq> k
        \<longrightarrow> prio (h ! parentOf i) \<le> prio (h ! i))
     \<and> (0 < k \<longrightarrow> (\<forall>i. 0 < i \<and> i < length h \<and> parentOf i = k
            \<longrightarrow> prio (h ! parentOf k) \<le> prio (h ! i)))"

lemma almost_down_step:
  assumes k: "k < length h"
    and ad: "almost_down h k"
    and sc: "swapChoice (h ! k) h k = Some s"
    and nn: "nonan h"
  shows "almost_down (h[k := h ! s, s := h ! k]) s"
proof -
  let ?h = "h[k := h ! s, s := h ! k]"
  note S = swapChoice_Some [OF sc nn nonan_nth [OF nn k]]
  have A: "\<And>i. 0 < i \<Longrightarrow> i < length h \<Longrightarrow> parentOf i \<noteq> k \<Longrightarrow> prio (h ! parentOf i) \<le> prio (h ! i)"
    using ad by (simp add: almost_down_def)
  have B: "\<And>i. 0 < k \<Longrightarrow> 0 < i \<Longrightarrow> i < length h \<Longrightarrow> parentOf i = k \<Longrightarrow> prio (h ! parentOf k) \<le> prio (h ! i)"
    using ad by (simp add: almost_down_def)
  have first: "prio (?h ! parentOf i) \<le> prio (?h ! i)"
    if i: "0 < i" "i < length ?h" "parentOf i \<noteq> s" for i
  proof -
    have il: "i < length h" using i by simp
    have pil: "parentOf i < i" using parentOf_less [OF i(1)] .
    consider "i = s" | "i \<noteq> s" "parentOf i = k" | "i = k" "parentOf i \<noteq> k"
      | "i \<noteq> s" "i \<noteq> k" "parentOf i \<noteq> k" using S(3) by blast
    then show ?thesis
    proof cases
      case 1
      then show ?thesis using S k by (simp add: nth_list_update)
    next
      case 2
      then have "i \<noteq> k" using pil by auto
      then show ?thesis using 2 S(5) [OF i(1) il] S(1,2) k il by (simp add: nth_list_update)
    next
      case 3
      then have k0: "0 < k" using i by simp
      have "parentOf k \<noteq> s" using 3 i by simp
      moreover have "parentOf k \<noteq> k" using pil 3 by simp
      moreover have "prio (h ! parentOf k) \<le> prio (h ! s)"
        using B [OF k0 _ S(1) S(3)] S(2) by simp
      ultimately show ?thesis using 3 S(1,2) k pil by (simp add: nth_list_update)
    next
      case 4
      then show ?thesis using A [OF i(1) il] i il pil by (simp add: nth_list_update)
    qed
  qed
  have second: "prio (?h ! parentOf s) \<le> prio (?h ! i)"
    if i: "0 < i" "i < length ?h" "parentOf i = s" for i
  proof -
    have il: "i < length h" using i by simp
    have si: "s < i" using parentOf_less [OF i(1)] i(3) by simp
    have "prio (h ! s) \<le> prio (h ! i)"
      using A [OF i(1) il] i(3) S(2) by simp
    then show ?thesis using S si k il by (simp add: nth_list_update)
  qed
  show ?thesis
    unfolding almost_down_def using first second by blast
qed

lemma length_sinkDown_loop: "length (sinkDown_loop e h k) = length h"
proof (induction "length h - k" arbitrary: h k rule: less_induct)
  case less
  show ?case
  proof (cases "swapChoice e h k")
    case None
    then show ?thesis by (subst sinkDown_loop_unfold) simp
  next
    case (Some s)
    note S = swapChoice_idx [OF Some]
    have "length (sinkDown_loop e (h[k := h ! s, s := e]) s) = length (h[k := h ! s, s := e])"
      using S by (intro less) simp
    then show ?thesis
      using Some by (subst sinkDown_loop_unfold) simp
  qed
qed

lemma mset_sinkDown_loop:
  "k < length h \<Longrightarrow> h ! k = e \<Longrightarrow> mset (sinkDown_loop e h k) = mset h"
proof (induction "length h - k" arbitrary: h k rule: less_induct)
  case less
  show ?case
  proof (cases "swapChoice e h k")
    case None
    then show ?thesis by (subst sinkDown_loop_unfold) simp
  next
    case (Some s)
    note S = swapChoice_idx [OF Some]
    let ?h = "h[k := h ! s, s := e]"
    have "mset (sinkDown_loop e ?h s) = mset ?h"
      using S less.prems by (intro less) simp_all
    moreover have "mset ?h = mset h"
      using mset_swap [of s h k] S less.prems by simp
    ultimately show ?thesis
      using Some by (subst sinkDown_loop_unfold) simp
  qed
qed

lemma heap_ord_sinkDown_loop:
  "k < length h \<Longrightarrow> h ! k = e \<Longrightarrow> almost_down h k \<Longrightarrow> nonan h
   \<Longrightarrow> heap_ord (sinkDown_loop e h k)"
proof (induction "length h - k" arbitrary: h k rule: less_induct)
  case less
  have ne: "priority e \<noteq> NaN"
    using nonan_nth [of h k] less.prems by simp
  show ?case
  proof (cases "swapChoice e h k")
    case None
    have "heap_ord h"
      unfolding heap_ord_def
    proof (intro allI impI)
      fix i assume i: "0 < i \<and> i < length h"
      show "prio (h ! parentOf i) \<le> prio (h ! i)"
      proof (cases "parentOf i = k")
        case True
        then show ?thesis
          using swapChoice_None [OF None, of i] i less.prems ne by simp
      next
        case False
        then show ?thesis using i less.prems by (simp add: almost_down_def)
      qed
    qed
    then show ?thesis
      using None by (subst sinkDown_loop_unfold) simp
  next
    case (Some s)
    note S = swapChoice_idx [OF Some]
    let ?h = "h[k := h ! s, s := e]"
    have "almost_down ?h s"
      using almost_down_step [of k h s] less.prems Some by simp
    moreover have "nonan ?h"
      using nonan_swap [of h k s] less.prems S by simp
    ultimately have "heap_ord (sinkDown_loop e ?h s)"
      using S less.prems by (intro less) simp_all
    then show ?thesis
      using Some by (subst sinkDown_loop_unfold) simp
  qed
qed

lemma heap_ord_min:
  "heap_ord h \<Longrightarrow> i < length h \<Longrightarrow> prio (h ! 0) \<le> prio (h ! i)"
proof (induction i rule: less_induct)
  case (less i)
  show ?case
  proof (cases "i = 0")
    case True
    then show ?thesis by simp
  next
    case False
    then have p: "parentOf i < i" using parentOf_less by simp
    have "prio (h ! 0) \<le> prio (h ! parentOf i)"
      using less p by simp
    moreover have "prio (h ! parentOf i) \<le> prio (h ! i)"
      using less.prems False by (simp add: heap_ord_def)
    ultimately show ?thesis by simp
  qed
qed

lemma dequeue_empty: "dequeue [] = (None, [])"
  by (simp add: dequeue_def isEmpty_def)

lemma mset_dequeue:
  assumes ne: "h \<noteq> []"
  shows "mset (snd (dequeue h)) = mset h - {#h ! 0#}"
proof -
  obtain m t where h: "h = m # t" using ne by (cases h) auto
  show ?thesis
  proof (cases "t = []")
    case True
    then show ?thesis using h by (simp add: dequeue_def isEmpty_def Let_def)
  next
    case False
    then have bl: "butlast h = m # butlast t" and la: "last h = last t"
      using h by simp_all
    have "mset (sinkDown ((butlast h)[0 := last h]) 0) = mset ((butlast h)[0 := last h])"
      unfolding sinkDown_def using bl by (intro mset_sinkDown_loop) simp_all
    also have "\<dots> = add_mset (last t) (mset (butlast t))"
      using bl la by simp
    also have "\<dots> = mset (butlast t @ [last t])"
      by simp
    also have "\<dots> = mset t"
      using False by simp
    finally show ?thesis
      using h bl by (simp add: dequeue_def isEmpty_def Let_def)
  qed
qed

lemma set_dequeue_subset: "set (snd (dequeue h)) \<subseteq> set h"
proof (cases "h = []")
  case True
  then show ?thesis by (simp add: dequeue_empty)
next
  case False
  have "set_mset (mset (snd (dequeue h))) \<subseteq> set_mset (mset h)"
    unfolding mset_dequeue [OF False] by (rule set_mset_mono) simp
  then show ?thesis by simp
qed

lemma dequeue_nonempty:
  assumes ne: "h \<noteq> []" and hok: "heap_ok h"
  shows "fst (dequeue h) = Some (item (h ! 0))"
    and "mset (snd (dequeue h)) = mset h - {#h ! 0#}"
    and "heap_ok (snd (dequeue h))"
    and "\<forall>e \<in> set h. prio (h ! 0) \<le> prio e"
proof -
  have ok: "heap_ord h" and nn: "nonan h" using hok by (simp_all add: heap_ok_def)
  show "fst (dequeue h) = Some (item (h ! 0))"
    using ne by (simp add: dequeue_def isEmpty_def Let_def)
  show "\<forall>e \<in> set h. prio (h ! 0) \<le> prio e"
    using heap_ord_min [OF ok] by (auto simp: in_set_conv_nth)
  show "mset (snd (dequeue h)) = mset h - {#h ! 0#}"
    by (rule mset_dequeue [OF ne])
  have nn1: "nonan (snd (dequeue h))"
    using nn set_dequeue_subset [of h] by (auto simp: nonan_def)
  obtain m t where h: "h = m # t" using ne by (cases h) auto
  have "heap_ord (snd (dequeue h))"
  proof (cases "t = []")
    case True
    then show ?thesis using h by (simp add: dequeue_def isEmpty_def Let_def heap_ord_def)
  next
    case False
    then have bl: "butlast h = m # butlast t" and la: "last h = last t"
      using h by simp_all
    let ?g = "(butlast h)[0 := last h]"
    have "set ?g \<subseteq> set h"
    proof -
      have "set ?g \<subseteq> insert (last h) (set (butlast h))"
        by (rule set_update_subset_insert)
      moreover have "last h \<in> set h" using ne by simp
      moreover have "set (butlast h) \<subseteq> set h" by (auto dest: in_set_butlastD)
      ultimately show ?thesis by blast
    qed
    then have nng: "nonan ?g" using nn by (auto simp: nonan_def)
    have "almost_down ?g 0"
      unfolding almost_down_def
    proof (intro conjI allI impI)
      fix i assume i: "0 < i \<and> i < length ?g \<and> parentOf i \<noteq> 0"
      then have il: "i < length h" by simp arith
      have "?g ! i = h ! i" using i by (simp add: nth_butlast)
      moreover have "?g ! parentOf i = h ! parentOf i"
        using i parentOf_less [of i] by (simp add: nth_butlast)
      ultimately show "prio (?g ! parentOf i) \<le> prio (?g ! i)"
        using ok i il by (simp add: heap_ord_def)
    next
      fix i assume "(0::nat) < 0"
      then show "prio (?g ! parentOf 0) \<le> prio (?g ! i)" by simp
    qed
    then have "heap_ord (sinkDown ?g 0)"
      unfolding sinkDown_def using bl nng by (intro heap_ord_sinkDown_loop) simp_all
    then show ?thesis
      using h bl by (simp add: dequeue_def isEmpty_def Let_def)
  qed
  then show "heap_ok (snd (dequeue h))"
    using nn1 by (simp add: heap_ok_def)
qed

lemma set_dequeue_others:
  assumes "h \<noteq> []" and "e \<in> set h" and "e \<noteq> h ! 0"
  shows "e \<in> set (snd (dequeue h))"
proof -
  have "e \<in># mset h - {#h ! 0#}"
    using assms(2,3) by (simp add: in_diff_count)
  then show ?thesis using mset_dequeue [OF assms(1)] by (metis set_mset_mset)
qed

lemma enqueue_empty: "enqueue [] x p = [\<lparr>item = x, priority = p\<rparr>]"
  by (simp add: enqueue_def bubbleUp_def bubbleUp_loop.simps)

lemma dequeue_single: "dequeue [e] = (Some (item e), [])"
  by (simp add: dequeue_def isEmpty_def)


lemma length_dequeue: "length (snd (dequeue h)) = length h - 1"
  by (cases h rule: rev_cases)
     (simp_all add: dequeue_def isEmpty_def Let_def sinkDown_def length_sinkDown_loop)

lemma length_drain: "length (snd (drain j h)) = length h - j"
  by (induction j arbitrary: h) (auto simp: split_beta Let_def length_dequeue)

lemma drain_empty: "drain k [] = (replicate k None, [])"
  by (induction k) (auto simp: dequeue_empty)

lemma drain_add:
  "drain (m + k) h = (fst (drain m h) @ fst (drain k (snd (drain m h))), snd (drain k (snd (drain m h))))"
  by (induction m arbitrary: h) (auto simp: split_beta Let_def)

lemma drain_sorted:
  "heap_ok h \<Longrightarrow> length h = n \<Longrightarrow>
   \<exists>ys. mset ys = mset h \<and> sorted (map prio ys)
        \<and> drain n h = (map (\<lambda>y. Some (item y)) ys, [])"
proof (induction n arbitrary: h)
  case 0
  then show ?case by simp
next
  case (Suc n)
  then have ne: "h \<noteq> []" by auto
  note D = dequeue_nonempty [OF ne Suc.prems(1)]
  let ?h = "snd (dequeue h)"
  have "length ?h = n" using Suc.prems by (simp add: length_dequeue)
  then obtain ys where ys: "mset ys = mset ?h" "sorted (map prio ys)"
      "drain n ?h = (map (\<lambda>y. Some (item y)) ys, [])"
    using Suc.IH [OF D(3)] by blast
  have h0: "h ! 0 \<in># mset h" using ne by (cases h) auto
  have m: "mset (h ! 0 # ys) = mset h"
    using ys(1) D(2) h0 by simp
  have "set ys \<subseteq> set h"
    using m by (metis set_mset_mset set_subset_Cons)
  then have "sorted (map prio (h ! 0 # ys))"
    using ys(2) D(4) by auto
  moreover have "drain (Suc n) h = (map (\<lambda>y. Some (item y)) (h ! 0 # ys), [])"
    using ys(3) D(1) by (simp add: split_beta Let_def)
  ultimately show ?case using m by blast
qed

lemma heap_ok_enqueueAll:
  "heap_ok h \<Longrightarrow> NaN \<notin> snd ` set xs \<Longrightarrow> heap_ok (enqueueAll xs h)"
  unfolding enqueueAll_def
  by (induction xs arbitrary: h) (auto simp: heap_ok_enqueue)

lemma mset_enqueueAll:
  "mset (enqueueAll xs h) = mset (map (\<lambda>(x, p). \<lparr>item = x, priority = p\<rparr>) xs) + mset h"
  unfolding enqueueAll_def
  by (induction xs arbitrary: h) (auto simp: mset_enqueue)

lemma length_enqueueAll: "length (enqueueAll xs []) = length xs"
  using mset_enqueueAll [of xs "[]"] by (metis add.right_neutral length_map mset.simps(1) size_mset)

lemma heap_ok_empty: "heap_ok []"
  by (simp add: heap_ok_def heap_ord_def nonan_def)

lemma drain_enqueueAll_sorted:
  assumes nn: "NaN \<notin> snd ` set xs"
  shows "\<exists>ys. mset (map (\<lambda>(x, n). (x, Num n)) ys) = mset xs \<and> sorted (map snd ys)
           \<and> drain (length xs) (enqueueAll xs []) = (map (\<lambda>(x, n). Some x) ys, [])"
proof -
  let ?q = "enqueueAll xs []"
  have ok: "heap_ok ?q"
    using heap_ok_empty nn by (rule heap_ok_enqueueAll)
  obtain es where es: "mset es = mset ?q" "sorted (map prio es)"
      "drain (length xs) ?q = (map (\<lambda>y. Some (item y)) es, [])"
    using drain_sorted [OF ok length_enqueueAll] by blast
  let ?ys = "map (\<lambda>e. (item e, prio e)) es"
  have "nonan es"
    using ok nonan_mset [OF es(1)] by (simp add: heap_ok_def)
  then have "map (\<lambda>(x, n). (x, Num n)) ?ys = map (\<lambda>e. (item e, priority e)) es"
    by (simp add: nonan_def Num_prio)
  also have "mset \<dots> = image_mset (\<lambda>e. (item e, priority e)) (mset es)"
    by simp
  also have "\<dots> = image_mset (\<lambda>e. (item e, priority e))
                      (mset (map (\<lambda>(x, p). \<lparr>item = x, priority = p\<rparr>) xs))"
    using es(1) by (simp add: mset_enqueueAll)
  also have "\<dots> = mset xs"
    by (simp add: image_mset.compositionality comp_def split_beta)
  finally have 1: "mset (map (\<lambda>(x, n). (x, Num n)) ?ys) = mset xs" .
  have 2: "sorted (map snd ?ys)"
    using es(2) by (simp add: comp_def)
  have 3: "drain (length xs) ?q = (map (\<lambda>(x, n). Some x) ?ys, [])"
    using es(3) by (simp add: comp_def)
  show ?thesis using 1 2 3 by blast
qed

text \<open>
  Claim C6 as stated, for every sequence of enqueue calls, fails on a priority NaN.
  Enqueue \<open>a\<close> with priority 1, \<open>b\<close> with priority NaN and \<open>c\<close> with priority 5 on a
  fresh queue: \<open>NaN \<ge> 1\<close> is false, so bubbleUp moves \<open>b\<close> to the root, and \<open>5 \<ge> NaN\<close> is
  false, so bubbleUp moves \<open>c\<close> above it; the array is then \<open>c, a, b\<close>.  In the first
  dequeue \<open>1 < NaN\<close> is false and sinkDown leaves \<open>b\<close> at the root.  The three dequeues
  return \<open>c\<close>, \<open>b\<close>, \<open>a\<close>: the item of priority 5 comes out before the item of
  priority 1.
\<close>

theorem C6_counterexample:
  "enqueueAll [(''a'', Num 1), (''b'', NaN), (''c'', Num 5)] []
     = [\<lparr>item = ''c'', priority = Num 5\<rparr>, \<lparr>item = ''a'', priority = Num 1\<rparr>,
        \<lparr>item = ''b'', priority = NaN\<rparr>]
   \<and> fst (drain 3 (enqueueAll [(''a'', Num 1), (''b'', NaN), (''c'', Num 5)] []))
     = [Some ''c'', Some ''b'', Some ''a'']"
  by code_simp

text \<open>
  Claim C6, amended to priorities other than NaN.  For every sequence \<open>xs\<close> of enqueue
  calls on a fresh queue none of whose priorities is NaN, followed by repeated dequeue
  calls: the first \<open>length xs\<close> dequeues return the enqueued items in non-decreasing
  order of their enqueue priorities (the returned items are those of a list \<open>ys\<close> of
  (item, priority) pairs that is a permutation of the enqueued pairs and is sorted by
  priority), and every further dequeue returns the empty indicator.  For every sequence
  of enqueue calls, with or without NaN: after \<open>j\<close> dequeues \<open>isEmpty\<close> holds exactly
  when no item remains (\<open>length xs \<le> j\<close>); and dequeue on the empty queue returns the
  empty indicator and leaves the queue empty.
\<close>

theorem C6_priority_queue_order_without_NaN:
  "(NaN \<notin> snd ` set xs \<longrightarrow>
      (\<exists>ys. mset (map (\<lambda>(x, n). (x, Num n)) ys) = mset xs
          \<and> sorted (map snd ys)
          \<and> fst (drain (length xs + k) (enqueueAll xs []))
              = map (\<lambda>(x, n). Some x) ys @ replicate k None))
   \<and> (isEmpty (snd (drain j (enqueueAll xs []))) \<longleftrightarrow> length xs \<le> j)
   \<and> dequeue ([] :: 'a PQItem list) = (None, [])"
proof (intro conjI impI)
  let ?q = "enqueueAll xs []"
  assume "NaN \<notin> snd ` set xs"
  then obtain ys where ys: "mset (map (\<lambda>(x, n). (x, Num n)) ys) = mset xs"
      "sorted (map snd ys)" "drain (length xs) ?q = (map (\<lambda>(x, n). Some x) ys, [])"
    using drain_enqueueAll_sorted [of xs] by blast
  have "fst (drain (length xs + k) ?q) = map (\<lambda>(x, n). Some x) ys @ replicate k None"
    by (simp add: drain_add ys(3) drain_empty)
  then show "\<exists>ys. mset (map (\<lambda>(x, n). (x, Num n)) ys) = mset xs
          \<and> sorted (map snd ys)
          \<and> fst (drain (length xs + k) ?q) = map (\<lambda>(x, n). Some x) ys @ replicate k None"
    using ys(1,2) by blast
next
  show "isEmpty (snd (drain j (enqueueAll xs []))) \<longleftrightarrow> length xs \<le> j"
    by (simp add: isEmpty_def length_drain length_enqueueAll)
next
  show "dequeue ([] :: 'a PQItem list) = (None, [])"
    by (rule dequeue_empty)
qed

theorem C6_priority_queue_order_without_NaN_witness:
  "NaN \<notin> snd ` set [(''a'', Num 3), (''b'', Num 1), (''c'', Num 2)]
   \<and> (\<exists>ys. mset (map (\<lambda>(x, n). (x, Num n)) ys) = mset [(''a'', Num 3), (''b'', Num 1), (''c'', Num 2)]
          \<and> sorted (map snd ys)
          \<and> fst (drain 4 (enqueueAll [(''a'', Num 3), (''b'', Num 1), (''c'', Num 2)] []))
              = map (\<lambda>(x, n). Some x) ys @ replicate 1 None)
   \<and> fst (drain 4 (enqueueAll [(''a'', Num 3), (''b'', Num 1), (''c'', Num 2)] []))
       = [Some ''b'', Some ''c'', Some ''a'', None]
   \<and> isEmpty (snd (drain 3 (enqueueAll [(''a'', Num 3), (''b'', Num 1), (''c'', Num 2)] [])))
   \<and> \<not> isEmpty (snd (drain 2 (enqueueAll [(''a'', Num 3), (''b'', Num 1), (''c'', Num 2)] [])))
   \<and> dequeue ([] :: string PQItem list) = (None, [])"
proof -
  let ?xs = "[(''a'', Num 3), (''b'', Num 1), (''c'', Num 2)]"
  note T = C6_priority_queue_order_without_NaN [of ?xs 1]
  have nn: "NaN \<notin> snd ` set ?xs" by simp
  have len: "length ?xs + 1 = 4" by simp
  have 1: "\<exists>ys. mset (map (\<lambda>(x, n). (x, Num n)) ys) = mset ?xs
          \<and> sorted (map snd ys)
          \<and> fst (drain 4 (enqueueAll ?xs [])) = map (\<lambda>(x, n). Some x) ys @ replicate 1 None"
    using T [of 0, unfolded len] nn by blast
  have 2: "fst (drain 4 (enqueueAll ?xs [])) = [Some ''b'', Some ''c'', Some ''a'', None]"
    by code_simp
  have 3: "isEmpty (snd (drain 3 (enqueueAll ?xs [])))"
    using T [of 3, THEN conjunct2, THEN conjunct1] by simp
  have 4: "\<not> isEmpty (snd (drain 2 (enqueueAll ?xs [])))"
    using T [of 2, THEN conjunct2, THEN conjunct1] by simp
  have 5: "dequeue ([] :: string PQItem list) = (None, [])"
    using T [of 0, THEN conjunct2, THEN conjunct2] .
  show ?thesis using nn 1 2 3 4 5 by simp
qed


section \<open>Grid geometry and parent chains\<close>

definition validInput :: "GridDimensions \<Rightarrow> Coordinate \<Rightarrow> Coordinate \<Rightarrow> bool" where
  "validInput dims start goal \<longleftrightarrow>
     0 < rows dims \<and> 0 < cols dims \<and> isValid start dims \<and> isValid goal dims"

definition validKeys :: "GridDimensions \<Rightarrow> string set" where
  "validKeys dims = coordToString ` {c. isValid c dims}"

definition adjacent :: "Coordinate \<Rightarrow> Coordinate \<Rightarrow> bool" where
  "adjacent a b \<longleftrightarrow>
     (row b = row a \<and> \<bar>col b - col a\<bar> = 1) \<or> (col b = col a \<and> \<bar>row b - row a\<bar> = 1)"

lemma finite_valid: "finite {c. isValid c dims}"
proof -
  have "{c. isValid c dims}
      \<subseteq> (\<lambda>(r, c). \<lparr>row = r, col = c\<rparr>) ` ({0..<rows dims} \<times> {0..<cols dims})"
  proof
    fix c assume "c \<in> {c. isValid c dims}"
    then have "(row c, col c) \<in> {0..<rows dims} \<times> {0..<cols dims}"
      by (simp add: isValid_def)
    moreover have "c = (\<lambda>(r, c). \<lparr>row = r, col = c\<rparr>) (row c, col c)" by simp
    ultimately show "c \<in> (\<lambda>(r, c). \<lparr>row = r, col = c\<rparr>) ` ({0..<rows dims} \<times> {0..<cols dims})"
      by (rule rev_image_eqI)
  qed
  then show ?thesis by (rule finite_subset) simp
qed

lemma finite_validKeys: "finite (validKeys dims)"
  by (simp add: validKeys_def finite_valid)

lemma coordToString_in_validKeys [simp]: "coordToString c \<in> validKeys dims \<longleftrightarrow> isValid c dims"
  by (auto simp: validKeys_def)

lemma coordToString_nonempty [simp]: "coordToString c \<noteq> []"
  by (simp add: coordToString_def)

lemma fold_DIRECTIONS:
  "fold f DIRECTIONS st =
     f \<lparr>row = 0, col = 1\<rparr> (f \<lparr>row = 0, col = -1\<rparr> (f \<lparr>row = 1, col = 0\<rparr> (f \<lparr>row = -1, col = 0\<rparr> st)))"
  by (simp add: DIRECTIONS_def)

lemma adjacent_nextCoord: "dir \<in> set DIRECTIONS \<Longrightarrow> adjacent cur (nextCoord cur dir)"
  by (auto simp: DIRECTIONS_def adjacent_def nextCoord_def)

lemma heuristic_adjacent: "adjacent a b \<Longrightarrow> \<bar>heuristic a g - heuristic b g\<bar> \<le> 1"
  by (auto simp: adjacent_def heuristic_def)

lemma heuristic_sym: "heuristic a b = heuristic b a"
  by (simp add: heuristic_def abs_minus_commute)

lemma heuristic_triangle: "heuristic a c \<le> heuristic a b + heuristic b c"
  by (simp add: heuristic_def)

lemma heuristic_nonneg: "0 \<le> heuristic a b"
  by (simp add: heuristic_def)

lemma heuristic_self [simp]: "heuristic a a = 0"
  by (simp add: heuristic_def)

lemma heuristic_zero [simp]: "heuristic a b = 0 \<longleftrightarrow> a = b"
  by (cases a, cases b) (auto simp: heuristic_def)

lemma reconstructPath_loop_chain:
  fixes rank :: "string \<Rightarrow> nat"
  assumes acyc: "\<And>k p. pm k = Some p \<Longrightarrow> rank p < rank k"
    and keys: "\<And>k p. pm k = Some p \<Longrightarrow> p \<in> range coordToString"
  shows "\<exists>cs. cs \<noteq> [] \<and> last cs = c \<and> pm (coordToString (hd cs)) = None
        \<and> successively (\<lambda>a b. pm (coordToString b) = Some (coordToString a)) cs
        \<and> reconstructPath_loop pm acc (Some (coordToString c)) = Some (cs @ acc)"
proof (induction "rank (coordToString c)" arbitrary: c acc rule: less_induct)
  case less
  let ?k = "coordToString c"
  have unf: "reconstructPath_loop pm acc (Some ?k) = reconstructPath_loop pm (c # acc) (pm ?k)"
    by (subst reconstructPath_loop.simps) (simp add: stringToCoord_coordToString)
  show ?case
  proof (cases "pm ?k")
    case None
    have "reconstructPath_loop pm (c # acc) None = Some (c # acc)"
      by (subst reconstructPath_loop.simps) simp
    then have "reconstructPath_loop pm acc (Some ?k) = Some ([c] @ acc)"
      using unf None by simp
    then show ?thesis
      using None by (intro exI [of _ "[c]"]) simp
  next
    case (Some p)
    obtain d where d: "p = coordToString d" using keys [OF Some] by auto
    have "rank (coordToString d) < rank ?k" using acyc [OF Some] d by simp
    from less [OF this, of "c # acc"]
    obtain cs where c0: "cs \<noteq> [] \<and> last cs = d \<and> pm (coordToString (hd cs)) = None
      \<and> successively (\<lambda>a b. pm (coordToString b) = Some (coordToString a)) cs
      \<and> reconstructPath_loop pm (c # acc) (Some (coordToString d)) = Some (cs @ c # acc)" ..
    then have cs: "cs \<noteq> []" "last cs = d" "pm (coordToString (hd cs)) = None"
      "successively (\<lambda>a b. pm (coordToString b) = Some (coordToString a)) cs"
      "reconstructPath_loop pm (c # acc) (Some (coordToString d)) = Some (cs @ c # acc)"
      by simp_all
    have "successively (\<lambda>a b. pm (coordToString b) = Some (coordToString a)) (cs @ [c])"
      using cs Some d by (simp add: successively_append_iff)
    moreover have "reconstructPath_loop pm acc (Some ?k) = Some ((cs @ [c]) @ acc)"
      using unf Some d cs(5) by simp
    ultimately show ?thesis
      using cs(1,3) by (intro exI [of _ "cs @ [c]"]) simp
  qed
qed

lemma step_towards:
  assumes "isValid a dims" and "isValid b dims" and "a \<noteq> b"
  shows "\<exists>w dir. dir \<in> set DIRECTIONS \<and> isValid w dims \<and> nextCoord w dir = b
     \<and> heuristic a w = heuristic a b - 1"
proof -
  have "row a \<noteq> row b \<or> col a \<noteq> col b"
    using assms(3) by (cases a, cases b) auto
  then consider "row a < row b" | "row b < row a" | "row a = row b" "col a < col b"
    | "row a = row b" "col b < col a"
    by linarith
  then show ?thesis
  proof cases
    case 1
    then show ?thesis
      using assms(1,2)
      by (intro exI [of _ "\<lparr>row = row b - 1, col = col b\<rparr>"] exI [of _ "\<lparr>row = 1, col = 0\<rparr>"])
         (auto simp: DIRECTIONS_def isValid_def nextCoord_def heuristic_def)
  next
    case 2
    then show ?thesis
      using assms(1,2)
      by (intro exI [of _ "\<lparr>row = row b + 1, col = col b\<rparr>"] exI [of _ "\<lparr>row = -1, col = 0\<rparr>"])
         (auto simp: DIRECTIONS_def isValid_def nextCoord_def heuristic_def)
  next
    case 3
    then show ?thesis
      using assms(1,2)
      by (intro exI [of _ "\<lparr>row = row b, col = col b - 1\<rparr>"] exI [of _ "\<lparr>row = 0, col = 1\<rparr>"])
         (auto simp: DIRECTIONS_def isValid_def nextCoord_def heuristic_def)
  next
    case 4
    then show ?thesis
      using assms(1,2)
      by (intro exI [of _ "\<lparr>row = row b, col = col b + 1\<rparr>"] exI [of _ "\<lparr>row = 0, col = -1\<rparr>"])
         (auto simp: DIRECTIONS_def isValid_def nextCoord_def heuristic_def)
  qed
qed

lemma heuristic_nextCoord:
  "dir \<in> set DIRECTIONS \<Longrightarrow>
   heuristic a (nextCoord c dir) = heuristic a c + 1 \<or> heuristic a (nextCoord c dir) = heuristic a c - 1"
  by (auto simp: DIRECTIONS_def nextCoord_def heuristic_def)

section \<open>Parent maps that form a tree rooted at the start key\<close>

definition tree_ok :: "string \<Rightarrow> (string \<rightharpoonup> string) \<Rightarrow> string set \<Rightarrow> bool" where
  "tree_ok s pm S \<longleftrightarrow>
     pm s = None
     \<and> (\<forall>k p. pm k = Some p \<longrightarrow>
           k \<in> S \<and> p \<in> S \<and> (\<exists>c d. k = coordToString c \<and> p = coordToString d \<and> adjacent d c))
     \<and> (\<forall>k \<in> S. k = s \<or> pm k \<noteq> None)
     \<and> (\<exists>rank :: string \<Rightarrow> nat. \<forall>k p. pm k = Some p \<longrightarrow> rank p < rank k)"

lemma tree_okI:
  fixes rank :: "string \<Rightarrow> nat"
  assumes "pm s = None"
    and "\<And>k p. pm k = Some p \<Longrightarrow>
           k \<in> S \<and> p \<in> S \<and> (\<exists>c d. k = coordToString c \<and> p = coordToString d \<and> adjacent d c)"
    and "\<And>k. k \<in> S \<Longrightarrow> k = s \<or> pm k \<noteq> None"
    and "\<And>k p. pm k = Some p \<Longrightarrow> rank p < rank k"
  shows "tree_ok s pm S"
  unfolding tree_ok_def
  apply (intro conjI ballI allI impI)
       apply (rule assms(1))
      apply (simp add: assms(2))
     apply (simp add: assms(2))
  using assms(2) apply blast
  using assms(3) apply blast
  using assms(4) apply blast
  done

lemma tree_okD:
  assumes "tree_ok s pm S"
  shows "pm s = None"
    and "\<And>k p. pm k = Some p \<Longrightarrow>
           k \<in> S \<and> p \<in> S \<and> (\<exists>c d. k = coordToString c \<and> p = coordToString d \<and> adjacent d c)"
    and "\<And>k. k \<in> S \<Longrightarrow> k = s \<or> pm k \<noteq> None"
  using assms unfolding tree_ok_def by (simp_all (no_asm_use)) blast+

lemma tree_ok_rank:
  assumes "tree_ok s pm S"
  shows "\<exists>rank :: string \<Rightarrow> nat. \<forall>k p. pm k = Some p \<longrightarrow> rank p < rank k"
  using assms unfolding tree_ok_def by blast

lemma tree_ok_empty: "tree_ok s Map.empty {s}"
  by (rule tree_okI [where rank = "\<lambda>_. 0"]) simp_all

lemma tree_ok_add:
  assumes t: "tree_ok s pm S" and s: "s \<in> S" and c: "coordToString cur \<in> S"
    and n: "coordToString next \<notin> S" and adj: "adjacent cur next"
  shows "tree_ok s (pm(coordToString next \<mapsto> coordToString cur)) (insert (coordToString next) S)"
proof -
  let ?k = "coordToString next"
  let ?c = "coordToString cur"
  note D = tree_okD [OF t]
  obtain rank :: "string \<Rightarrow> nat" where
    rank: "\<And>k p. pm k = Some p \<Longrightarrow> rank p < rank k"
    using tree_ok_rank [OF t] by blast
  show ?thesis
  proof (rule tree_okI [where rank = "rank(?k := Suc (rank ?c))"])
    show "(pm(?k \<mapsto> ?c)) s = None" using D(1) s n by auto
    show "k \<in> insert ?k S \<and> p \<in> insert ?k S
        \<and> (\<exists>c d. k = coordToString c \<and> p = coordToString d \<and> adjacent d c)"
      if a: "(pm(?k \<mapsto> ?c)) k = Some p" for k p
    proof (cases "k = ?k")
      case True
      then have "p = ?c" using a by simp
      then show ?thesis using True c adj by auto
    next
      case False
      then show ?thesis using a D(2) [of k p] by simp
    qed
    show "k = s \<or> (pm(?k \<mapsto> ?c)) k \<noteq> None" if "k \<in> insert ?k S" for k
      using that D(3) [of k] by auto
    show "(rank(?k := Suc (rank ?c))) p < (rank(?k := Suc (rank ?c))) k"
      if a: "(pm(?k \<mapsto> ?c)) k = Some p" for k p
    proof (cases "k = ?k")
      case True
      then have "p = ?c" using a by simp
      moreover have "?c \<noteq> ?k" using c n by auto
      ultimately show ?thesis using True by simp
    next
      case False
      then have b: "pm k = Some p" using a by simp
      then have "p \<noteq> ?k" using D(2) [OF b] n by auto
      then show ?thesis using False rank [OF b] by simp
    qed
  qed
qed

definition good_path :: "Coordinate \<Rightarrow> Coordinate \<Rightarrow> Coordinate list \<Rightarrow> bool" where
  "good_path start goal pth \<longleftrightarrow>
     pth \<noteq> [] \<and> hd pth = start \<and> last pth = goal \<and> successively adjacent pth"

lemma tree_ok_path:
  assumes t: "tree_ok (coordToString start) pm S"
    and g: "coordToString goal \<in> S"
  shows "\<exists>pth. reconstructPath pm (coordToString goal) = Some pth
     \<and> good_path start goal pth
     \<and> successively (\<lambda>a b. pm (coordToString b) = Some (coordToString a)) pth"
proof -
  obtain rank :: "string \<Rightarrow> nat" where
    rank: "\<And>k p. pm k = Some p \<Longrightarrow> rank p < rank k"
    using tree_ok_rank [OF t] by blast
  note D = tree_okD [OF t]
  have keys: "p \<in> range coordToString" if "pm k = Some p" for k p
    using D(2) [OF that] by blast
  from reconstructPath_loop_chain [of pm rank goal "[]", OF rank keys]
  obtain cs where c0: "cs \<noteq> [] \<and> last cs = goal \<and> pm (coordToString (hd cs)) = None
      \<and> successively (\<lambda>a b. pm (coordToString b) = Some (coordToString a)) cs
      \<and> reconstructPath_loop pm [] (Some (coordToString goal)) = Some (cs @ [])" ..
  then have cs: "cs \<noteq> []" "last cs = goal" "pm (coordToString (hd cs)) = None"
      "successively (\<lambda>a b. pm (coordToString b) = Some (coordToString a)) cs"
      "reconstructPath_loop pm [] (Some (coordToString goal)) = Some (cs @ [])"
    by simp_all
  have hdv: "coordToString (hd cs) \<in> S"
  proof (cases cs)
    case Nil
    then show ?thesis using cs by simp
  next
    case (Cons a as)
    show ?thesis
    proof (cases as)
      case Nil
      then show ?thesis using Cons cs g by simp
    next
      case (Cons b bs)
      then have "pm (coordToString b) = Some (coordToString a)"
        using cs(4) \<open>cs = a # as\<close> by simp
      from D(2) [OF this] show ?thesis using \<open>cs = a # as\<close> by simp
    qed
  qed
  then have "coordToString (hd cs) = coordToString start"
    using D(3) [of "coordToString (hd cs)"] cs(3) by blast
  then have hd: "hd cs = start" by simp
  have "successively adjacent cs"
  proof (rule successively_mono [OF cs(4)])
    fix a b assume "pm (coordToString b) = Some (coordToString a)"
    from D(2) [OF this] obtain c d where
      "coordToString b = coordToString c" "coordToString a = coordToString d" "adjacent d c"
      by blast
    then show "adjacent a b" by simp
  qed
  then show ?thesis
    using cs hd by (simp add: reconstructPath_def good_path_def)
qed


section \<open>Breadth-first search\<close>

definition bfs_snap :: "BFSState \<Rightarrow> Coordinate \<Rightarrow> AlgoStep" where
  "bfs_snap st cur =
     \<lparr>visited = bfs_visited st, frontier = bfs_frontier st - {coordToString cur},
      current = Some cur, path = None, depth = None, costMap = None\<rparr>"

definition bfs_final :: "BFSState \<Rightarrow> Coordinate \<Rightarrow> Coordinate list \<Rightarrow> AlgoStep" where
  "bfs_final st cur pth =
     \<lparr>visited = bfs_visited st, frontier = bfs_frontier st - {coordToString cur},
      current = None, path = Some pth, depth = None, costMap = None\<rparr>"

definition bfs_pop :: "Coordinate \<Rightarrow> Coordinate list \<Rightarrow> BFSState \<Rightarrow> BFSState" where
  "bfs_pop cur rest st =
     st\<lparr>bfs_queue := rest, bfs_frontier := bfs_frontier st - {coordToString cur},
        bfs_steps := bfs_steps st @ [bfs_snap st cur]\<rparr>"

definition bfs_body :: "GridDimensions \<Rightarrow> Coordinate \<Rightarrow> Coordinate list \<Rightarrow> BFSState \<Rightarrow> BFSState" where
  "bfs_body dims cur rest st = fold (bfs_visit dims cur) DIRECTIONS (bfs_pop cur rest st)"

definition bfs_measure :: "GridDimensions \<Rightarrow> BFSState \<Rightarrow> nat" where
  "bfs_measure dims st = 2 * card (validKeys dims - bfs_visited st) + length (bfs_queue st)"

lemma bfs_loop_empty: "bfs_queue st = [] \<Longrightarrow> bfs_loop dims g st = Some (bfs_steps st)"
  by (subst bfs_loop.simps) simp

lemma bfs_loop_goal:
  "bfs_queue st = cur # rest \<Longrightarrow> coordToString cur = g \<Longrightarrow>
   bfs_loop dims g st =
     map_option (\<lambda>pth. bfs_steps st @ [bfs_snap st cur, bfs_final st cur pth])
       (reconstructPath (bfs_parentMap st) g)"
  by (subst bfs_loop.simps)
     (simp add: bfs_snap_def bfs_final_def Let_def split: option.split)

lemma bfs_loop_step:
  "bfs_queue st = cur # rest \<Longrightarrow> coordToString cur \<noteq> g \<Longrightarrow>
   bfs_loop dims g st = bfs_loop dims g (bfs_body dims cur rest st)"
  by (subst bfs_loop.simps)
     (simp add: bfs_body_def bfs_pop_def bfs_snap_def Let_def)

lemma bfs_visit_measure: "bfs_measure dims (bfs_visit dims cur dir st) \<le> bfs_measure dims st"
proof (cases "isValid (nextCoord cur dir) dims
    \<and> coordToString (nextCoord cur dir) \<notin> bfs_visited st")
  case False
  then show ?thesis by (auto simp: bfs_visit_def Let_def)
next
  case True
  let ?k = "coordToString (nextCoord cur dir)"
  have k: "?k \<in> validKeys dims - bfs_visited st" using True by simp
  have fin: "finite (validKeys dims - bfs_visited st)" by (simp add: finite_validKeys)
  have "validKeys dims - insert ?k (bfs_visited st) = (validKeys dims - bfs_visited st) - {?k}"
    by auto
  then have "card (validKeys dims - insert ?k (bfs_visited st))
      = card (validKeys dims - bfs_visited st) - 1"
    using k fin by (simp add: card_Diff_singleton)
  moreover have "0 < card (validKeys dims - bfs_visited st)"
    using k fin by (metis card_gt_0_iff empty_iff)
  ultimately show ?thesis
    using True by (simp add: bfs_visit_def Let_def bfs_measure_def)
qed

lemma bfs_body_measure: "bfs_measure dims (bfs_body dims cur rest st) < bfs_measure dims (st\<lparr>bfs_queue := cur # rest\<rparr>)"
proof -
  have "bfs_measure dims (bfs_body dims cur rest st) \<le> bfs_measure dims (bfs_pop cur rest st)"
    unfolding bfs_body_def fold_DIRECTIONS
    by (intro order_trans [OF bfs_visit_measure] order_refl)
  also have "\<dots> < bfs_measure dims (st\<lparr>bfs_queue := cur # rest\<rparr>)"
    by (simp add: bfs_measure_def bfs_pop_def)
  finally show ?thesis .
qed

lemma bfs_loop_rule:
  assumes init: "I st"
    and empty: "\<And>st. I st \<Longrightarrow> bfs_queue st = [] \<Longrightarrow> Q (Some (bfs_steps st))"
    and goal: "\<And>st cur rest. I st \<Longrightarrow> bfs_queue st = cur # rest \<Longrightarrow> coordToString cur = g \<Longrightarrow>
       Q (map_option (\<lambda>pth. bfs_steps st @ [bfs_snap st cur, bfs_final st cur pth])
            (reconstructPath (bfs_parentMap st) g))"
    and step: "\<And>st cur rest. I st \<Longrightarrow> bfs_queue st = cur # rest \<Longrightarrow> coordToString cur \<noteq> g \<Longrightarrow>
       I (bfs_body dims cur rest st)"
  shows "Q (bfs_loop dims g st)"
  using init
proof (induction "bfs_measure dims st" arbitrary: st rule: less_induct)
  case less
  show ?case
  proof (cases "bfs_queue st")
    case Nil
    then show ?thesis using empty [OF less.prems] by (simp add: bfs_loop_empty)
  next
    case (Cons cur rest)
    show ?thesis
    proof (cases "coordToString cur = g")
      case True
      then show ?thesis using goal [OF less.prems Cons] Cons by (simp add: bfs_loop_goal)
    next
      case False
      have "bfs_measure dims (bfs_body dims cur rest st) < bfs_measure dims st"
        using bfs_body_measure [of dims cur rest st] Cons
        by (metis BFSState.surjective BFSState.update_convs(2))
      then have "Q (bfs_loop dims g (bfs_body dims cur rest st))"
        using step [OF less.prems Cons False] by (rule less.hyps)
      then show ?thesis using Cons False by (simp add: bfs_loop_step)
    qed
  qed
qed

subsection \<open>Invariant for every input\<close>

definition bfs_inv :: "string \<Rightarrow> BFSState \<Rightarrow> bool" where
  "bfs_inv startStr st \<longleftrightarrow>
     bfs_frontier st \<subseteq> bfs_visited st
     \<and> (\<forall>s \<in> set (bfs_steps st). frontier s \<subseteq> visited s \<and> path s = None)
     \<and> startStr \<in> bfs_visited st
     \<and> tree_ok startStr (bfs_parentMap st) (bfs_visited st)
     \<and> (\<forall>c \<in> set (bfs_queue st). coordToString c \<in> bfs_visited st)"

lemma bfs_invD:
  assumes "bfs_inv startStr st"
  shows "bfs_frontier st \<subseteq> bfs_visited st"
    and "\<And>s. s \<in> set (bfs_steps st) \<Longrightarrow> frontier s \<subseteq> visited s \<and> path s = None"
    and "startStr \<in> bfs_visited st"
    and "tree_ok startStr (bfs_parentMap st) (bfs_visited st)"
    and "\<And>c. c \<in> set (bfs_queue st) \<Longrightarrow> coordToString c \<in> bfs_visited st"
  using assms by (simp_all add: bfs_inv_def)

lemma bfs_inv_init:
  "bfs_inv (coordToString start)
     \<lparr>bfs_steps = [], bfs_queue = [start], bfs_visited = {coordToString start},
      bfs_parentMap = Map.empty, bfs_frontier = {coordToString start}\<rparr>"
  by (simp add: bfs_inv_def tree_ok_empty)

lemma bfs_inv_pop:
  assumes inv: "bfs_inv s st" and q: "bfs_queue st = cur # rest"
  shows "bfs_inv s (bfs_pop cur rest st)"
  using bfs_invD [OF inv] q
  by (auto simp: bfs_inv_def bfs_pop_def bfs_snap_def)

lemma bfs_visited_pop [simp]: "bfs_visited (bfs_pop cur rest st) = bfs_visited st"
  by (simp add: bfs_pop_def)

lemma bfs_visited_visit_mono: "bfs_visited st \<subseteq> bfs_visited (bfs_visit dims cur dir st)"
  by (auto simp: bfs_visit_def Let_def)

lemma bfs_inv_visit:
  assumes inv: "bfs_inv s st" and cur: "coordToString cur \<in> bfs_visited st"
    and dir: "dir \<in> set DIRECTIONS"
  shows "bfs_inv s (bfs_visit dims cur dir st)"
proof (cases "isValid (nextCoord cur dir) dims
    \<and> coordToString (nextCoord cur dir) \<notin> bfs_visited st")
  case False
  then have "bfs_visit dims cur dir st = st" by (auto simp: bfs_visit_def Let_def)
  then show ?thesis using inv by simp
next
  case True
  note D = bfs_invD [OF inv]
  have "tree_ok s ((bfs_parentMap st)(coordToString (nextCoord cur dir) \<mapsto> coordToString cur))
      (insert (coordToString (nextCoord cur dir)) (bfs_visited st))"
    using True by (intro tree_ok_add D(3,4) cur adjacent_nextCoord dir) simp
  then show ?thesis
    using True D(1,2,3,5) by (auto simp: bfs_visit_def Let_def bfs_inv_def)
qed

lemma bfs_inv_body:
  assumes inv: "bfs_inv s st" and q: "bfs_queue st = cur # rest"
  shows "bfs_inv s (bfs_body dims cur rest st)"
proof -
  have c: "coordToString cur \<in> bfs_visited st"
    using bfs_invD(5) [OF inv, of cur] q by simp
  have d: "\<lparr>row = -1, col = 0\<rparr> \<in> set DIRECTIONS" "\<lparr>row = 1, col = 0\<rparr> \<in> set DIRECTIONS"
    "\<lparr>row = 0, col = -1\<rparr> \<in> set DIRECTIONS" "\<lparr>row = 0, col = 1\<rparr> \<in> set DIRECTIONS"
    by (simp_all add: DIRECTIONS_def)
  note v = bfs_visited_visit_mono [THEN subsetD]
  show ?thesis
    unfolding bfs_body_def fold_DIRECTIONS
    by (intro bfs_inv_visit d v bfs_inv_pop [OF inv q]) (simp_all add: c)
qed


subsection \<open>Level order on a valid input\<close>

definition bfs_inGrid :: "GridDimensions \<Rightarrow> BFSState \<Rightarrow> bool" where
  "bfs_inGrid dims st \<longleftrightarrow> (\<forall>k \<in> bfs_visited st. k \<in> validKeys dims)"

definition bfs_closed :: "GridDimensions \<Rightarrow> BFSState \<Rightarrow> Coordinate set \<Rightarrow> bool" where
  "bfs_closed dims st X \<longleftrightarrow>
     (\<forall>c dir. coordToString c \<in> bfs_visited st \<longrightarrow> c \<notin> set (bfs_queue st) \<longrightarrow> c \<notin> X \<longrightarrow>
        dir \<in> set DIRECTIONS \<longrightarrow> isValid (nextCoord c dir) dims \<longrightarrow>
        coordToString (nextCoord c dir) \<in> bfs_visited st)"

definition bfs_levels :: "Coordinate \<Rightarrow> BFSState \<Rightarrow> bool" where
  "bfs_levels start st \<longleftrightarrow>
     (\<forall>c d. bfs_parentMap st (coordToString c) = Some (coordToString d) \<longrightarrow>
        heuristic start d + 1 = heuristic start c)"

definition bfs_goal_pending :: "Coordinate \<Rightarrow> BFSState \<Rightarrow> bool" where
  "bfs_goal_pending goal st \<longleftrightarrow>
     (coordToString goal \<in> bfs_visited st \<longrightarrow> goal \<in> set (bfs_queue st))"

definition bfs_below :: "GridDimensions \<Rightarrow> Coordinate \<Rightarrow> BFSState \<Rightarrow> int \<Rightarrow> bool" where
  "bfs_below dims start st m \<longleftrightarrow>
     (\<forall>u. isValid u dims \<longrightarrow> heuristic start u \<le> m \<longrightarrow> coordToString u \<in> bfs_visited st)"

definition bfs_sorted :: "Coordinate \<Rightarrow> Coordinate list \<Rightarrow> bool" where
  "bfs_sorted start q \<longleftrightarrow>
     sorted (map (heuristic start) q)
     \<and> (\<forall>x \<in> set q. heuristic start x \<le> heuristic start (hd q) + 1)"

definition bfs_lev_inv :: "GridDimensions \<Rightarrow> Coordinate \<Rightarrow> Coordinate \<Rightarrow> BFSState \<Rightarrow> bool" where
  "bfs_lev_inv dims start goal st \<longleftrightarrow>
     bfs_inGrid dims st \<and> bfs_closed dims st {} \<and> bfs_sorted start (bfs_queue st)
     \<and> (\<forall>x \<in> set (bfs_queue st). bfs_below dims start st (heuristic start x - 1))
     \<and> bfs_levels start st \<and> bfs_goal_pending goal st"

definition bfs_mid ::
  "GridDimensions \<Rightarrow> Coordinate \<Rightarrow> Coordinate \<Rightarrow> Coordinate \<Rightarrow> Coordinate set \<Rightarrow> BFSState \<Rightarrow> bool" where
  "bfs_mid dims start goal cur done st \<longleftrightarrow>
     bfs_inGrid dims st \<and> coordToString cur \<in> bfs_visited st \<and> cur \<noteq> goal
     \<and> bfs_closed dims st {cur}
     \<and> (\<forall>dir \<in> done. isValid (nextCoord cur dir) dims \<longrightarrow>
           coordToString (nextCoord cur dir) \<in> bfs_visited st)
     \<and> bfs_sorted start (cur # bfs_queue st)
     \<and> bfs_below dims start st (heuristic start cur)
     \<and> bfs_levels start st \<and> bfs_goal_pending goal st"

lemma bfs_lev_inv_init:
  assumes "isValid start dims"
  shows "bfs_lev_inv dims start goal
     \<lparr>bfs_steps = [], bfs_queue = [start], bfs_visited = {coordToString start},
      bfs_parentMap = Map.empty, bfs_frontier = {coordToString start}\<rparr>"
proof -
  have "\<And>u. \<not> heuristic start u < 0" "\<And>u. \<not> heuristic start u \<le> - 1"
    using heuristic_nonneg [of start] by (simp_all add: not_less not_le) (smt (verit))
  then show ?thesis
    using assms
    by (simp add: bfs_lev_inv_def bfs_inGrid_def bfs_closed_def bfs_sorted_def bfs_below_def
        bfs_levels_def bfs_goal_pending_def)
qed

lemma bfs_below_head:
  assumes inv: "bfs_inv (coordToString start) st"
    and lev: "bfs_lev_inv dims start goal st"
    and q: "bfs_queue st = cur # rest"
    and vs: "isValid start dims"
  shows "bfs_below dims start st (heuristic start cur)"
proof -
  have L: "bfs_closed dims st {}" "bfs_sorted start (cur # rest)"
    "bfs_below dims start st (heuristic start cur - 1)"
    using lev q by (simp_all add: bfs_lev_inv_def)
  have ge: "heuristic start cur \<le> heuristic start x" if "x \<in> set (cur # rest)" for x
    using L(2) that by (auto simp: bfs_sorted_def)
  show ?thesis
    unfolding bfs_below_def
  proof (intro allI impI)
    fix u assume u: "isValid u dims" "heuristic start u \<le> heuristic start cur"
    show "coordToString u \<in> bfs_visited st"
    proof (cases "heuristic start u \<le> heuristic start cur - 1")
      case True
      then show ?thesis using L(3) u by (simp add: bfs_below_def)
    next
      case False
      show ?thesis
      proof (cases "u = start")
        case True
        then show ?thesis using bfs_invD(3) [OF inv] by simp
      next
        case ns: False
        then obtain w dir where w: "dir \<in> set DIRECTIONS" "isValid w dims"
            "nextCoord w dir = u" "heuristic start w = heuristic start u - 1"
          using step_towards [OF vs u(1)] by metis
        have wv: "coordToString w \<in> bfs_visited st"
          using L(3) w u by (simp add: bfs_below_def)
        have "w \<notin> set (bfs_queue st)"
          using ge [of w] w(4) u(2) q by auto
        then have "coordToString (nextCoord w dir) \<in> bfs_visited st"
          using L(1) [unfolded bfs_closed_def, rule_format, of w dir] wv w u(1) by simp
        then show ?thesis using w(3) by simp
      qed
    qed
  qed
qed

lemma bfs_mid_pop:
  assumes inv: "bfs_inv (coordToString start) st"
    and lev: "bfs_lev_inv dims start goal st"
    and q: "bfs_queue st = cur # rest"
    and ng: "cur \<noteq> goal"
    and vs: "isValid start dims"
  shows "bfs_mid dims start goal cur {} (bfs_pop cur rest st)"
proof -
  let ?st = "bfs_pop cur rest st"
  have L: "bfs_inGrid dims st" "bfs_closed dims st {}" "bfs_sorted start (cur # rest)"
    "bfs_levels start st" "bfs_goal_pending goal st"
    using lev q by (simp_all add: bfs_lev_inv_def)
  have cv: "coordToString cur \<in> bfs_visited st"
    using bfs_invD(5) [OF inv, of cur] q by simp
  have 1: "bfs_inGrid dims ?st" using L(1) by (simp add: bfs_inGrid_def)
  have 2: "bfs_closed dims ?st {cur}"
    using L(2) q by (simp add: bfs_closed_def bfs_pop_def)
  have 3: "bfs_sorted start (cur # bfs_queue ?st)" using L(3) by (simp add: bfs_pop_def)
  have 4: "bfs_below dims start ?st (heuristic start cur)"
    using bfs_below_head [OF inv lev q vs] by (simp add: bfs_below_def)
  have 5: "bfs_levels start ?st" using L(4) by (simp add: bfs_levels_def bfs_pop_def)
  have 6: "bfs_goal_pending goal ?st"
    using L(5) q ng by (auto simp: bfs_goal_pending_def bfs_pop_def)
  show ?thesis
    unfolding bfs_mid_def using 1 2 3 4 5 6 cv ng by simp
qed

lemma bfs_mid_visit:
  assumes mid: "bfs_mid dims start goal cur done st"
    and dir: "dir \<in> set DIRECTIONS"
  shows "bfs_mid dims start goal cur (insert dir done) (bfs_visit dims cur dir st)"
proof -
  have M: "bfs_inGrid dims st" "coordToString cur \<in> bfs_visited st" "cur \<noteq> goal"
    "bfs_closed dims st {cur}"
    "\<forall>dir \<in> done. isValid (nextCoord cur dir) dims \<longrightarrow>
           coordToString (nextCoord cur dir) \<in> bfs_visited st"
    "bfs_sorted start (cur # bfs_queue st)"
    "bfs_below dims start st (heuristic start cur)"
    "bfs_levels start st" "bfs_goal_pending goal st"
    using mid by (simp_all add: bfs_mid_def)
  let ?n = "nextCoord cur dir"
  let ?k = "coordToString ?n"
  show ?thesis
  proof (cases "isValid ?n dims \<and> ?k \<notin> bfs_visited st")
    case False
    then have eq: "bfs_visit dims cur dir st = st" by (auto simp: bfs_visit_def Let_def)
    show ?thesis
      unfolding eq bfs_mid_def using M False by auto
  next
    case True
    let ?st = "st\<lparr>bfs_visited := insert ?k (bfs_visited st),
                 bfs_parentMap := (bfs_parentMap st)(?k \<mapsto> coordToString cur),
                 bfs_frontier := insert ?k (bfs_frontier st),
                 bfs_queue := bfs_queue st @ [?n]\<rparr>"
    have eq: "bfs_visit dims cur dir st = ?st"
      using True by (simp add: bfs_visit_def Let_def)
    have "\<not> heuristic start ?n \<le> heuristic start cur"
      using M(7) True by (auto simp: bfs_below_def)
    then have lv: "heuristic start ?n = heuristic start cur + 1"
      using heuristic_nextCoord [OF dir, of start cur] by linarith
    have 1: "bfs_inGrid dims ?st" using M(1) True by (simp add: bfs_inGrid_def)
    have 2: "coordToString cur \<in> bfs_visited ?st" using M(2) by simp
    have 4: "bfs_closed dims ?st {cur}"
      using M(4) by (auto simp: bfs_closed_def)
    have 5: "\<forall>d \<in> insert dir done. isValid (nextCoord cur d) dims \<longrightarrow>
           coordToString (nextCoord cur d) \<in> bfs_visited ?st"
      using M(5) by auto
    have 6: "bfs_sorted start (cur # bfs_queue ?st)"
      using M(6) lv by (auto simp: bfs_sorted_def sorted_append)
    have 7: "bfs_below dims start ?st (heuristic start cur)"
      using M(7) by (simp add: bfs_below_def)
    have 8: "bfs_levels start ?st"
      using M(8) lv by (auto simp: bfs_levels_def)
    have 9: "bfs_goal_pending goal ?st"
      using M(9) by (auto simp: bfs_goal_pending_def)
    show ?thesis
      unfolding eq bfs_mid_def using 1 2 M(3) 4 5 6 7 8 9 by blast
  qed
qed

lemma bfs_mid_done:
  assumes mid: "bfs_mid dims start goal cur (set DIRECTIONS) st"
  shows "bfs_lev_inv dims start goal st"
proof -
  have M: "bfs_inGrid dims st" "coordToString cur \<in> bfs_visited st" "cur \<noteq> goal"
    "bfs_closed dims st {cur}"
    "\<forall>dir \<in> set DIRECTIONS. isValid (nextCoord cur dir) dims \<longrightarrow>
           coordToString (nextCoord cur dir) \<in> bfs_visited st"
    "bfs_sorted start (cur # bfs_queue st)"
    "bfs_below dims start st (heuristic start cur)"
    "bfs_levels start st" "bfs_goal_pending goal st"
    using mid by (simp_all add: bfs_mid_def)
  have 2: "bfs_closed dims st {}"
    unfolding bfs_closed_def
  proof (intro allI impI)
    fix c dir
    assume a: "coordToString c \<in> bfs_visited st" "c \<notin> set (bfs_queue st)" "c \<notin> {}"
      "dir \<in> set DIRECTIONS" "isValid (nextCoord c dir) dims"
    show "coordToString (nextCoord c dir) \<in> bfs_visited st"
    proof (cases "c = cur")
      case True
      then show ?thesis using M(5) a by simp
    next
      case False
      then show ?thesis using M(4) a by (simp add: bfs_closed_def)
    qed
  qed
  have 3: "bfs_sorted start (bfs_queue st)"
    using M(6) by (cases "bfs_queue st") (auto simp: bfs_sorted_def)
  have 4: "\<forall>x \<in> set (bfs_queue st). bfs_below dims start st (heuristic start x - 1)"
    using M(6) M(7) by (auto simp: bfs_sorted_def bfs_below_def)
  show ?thesis
    unfolding bfs_lev_inv_def using M(1) 2 3 4 M(8) M(9) by simp
qed

lemma bfs_lev_inv_body:
  assumes inv: "bfs_inv (coordToString start) st"
    and lev: "bfs_lev_inv dims start goal st"
    and q: "bfs_queue st = cur # rest"
    and ng: "cur \<noteq> goal"
    and vs: "isValid start dims"
  shows "bfs_lev_inv dims start goal (bfs_body dims cur rest st)"
proof -
  have d: "\<lparr>row = -1, col = 0\<rparr> \<in> set DIRECTIONS" "\<lparr>row = 1, col = 0\<rparr> \<in> set DIRECTIONS"
    "\<lparr>row = 0, col = -1\<rparr> \<in> set DIRECTIONS" "\<lparr>row = 0, col = 1\<rparr> \<in> set DIRECTIONS"
    by (simp_all add: DIRECTIONS_def)
  have s: "set DIRECTIONS = insert \<lparr>row = 0, col = 1\<rparr> (insert \<lparr>row = 0, col = -1\<rparr>
      (insert \<lparr>row = 1, col = 0\<rparr> (insert \<lparr>row = -1, col = 0\<rparr> {})))"
    by (auto simp: DIRECTIONS_def)
  have "bfs_mid dims start goal cur (set DIRECTIONS) (bfs_body dims cur rest st)"
    unfolding bfs_body_def fold_DIRECTIONS s
    by (intro bfs_mid_visit d bfs_mid_pop [OF inv lev q ng vs])
  then show ?thesis by (rule bfs_mid_done)
qed


lemma bfs_exhausted_all_visited:
  assumes inv: "bfs_inv (coordToString start) st"
    and lev: "bfs_lev_inv dims start goal st"
    and q: "bfs_queue st = []"
    and vs: "isValid start dims" and u: "isValid u dims"
  shows "coordToString u \<in> bfs_visited st"
  using u
proof (induction "nat (heuristic start u)" arbitrary: u rule: less_induct)
  case less
  show ?case
  proof (cases "u = start")
    case True
    then show ?thesis using bfs_invD(3) [OF inv] by simp
  next
    case False
    then obtain w dir where w: "dir \<in> set DIRECTIONS" "isValid w dims"
        "nextCoord w dir = u" "heuristic start w = heuristic start u - 1"
      using step_towards [OF vs less.prems] by metis
    have "nat (heuristic start w) < nat (heuristic start u)"
      using w(4) heuristic_nonneg [of start w] by simp
    then have wv: "coordToString w \<in> bfs_visited st"
      using w(2) by (rule less.hyps)
    have cl: "bfs_closed dims st {}" using lev by (simp add: bfs_lev_inv_def)
    have "coordToString (nextCoord w dir) \<in> bfs_visited st"
      using cl [unfolded bfs_closed_def, rule_format, of w dir] wv w less.prems q by simp
    then show ?thesis using w(3) by simp
  qed
qed

lemma chain_length:
  fixes f :: "'a \<Rightarrow> int"
  assumes "successively (\<lambda>a b. f a + 1 = f b) cs" and "cs \<noteq> []"
  shows "f (last cs) = f (hd cs) + int (length cs) - 1"
  using assms
proof (induction cs rule: rev_induct)
  case Nil
  then show ?case by simp
next
  case (snoc x xs)
  show ?case
  proof (cases "xs = []")
    case True
    then show ?thesis by simp
  next
    case False
    then have "successively (\<lambda>a b. f a + 1 = f b) xs" "f (last xs) + 1 = f x"
      using snoc.prems(1) by (simp_all add: successively_append_iff)
    then show ?thesis using snoc.IH False by simp
  qed
qed

lemma chain_length_le:
  fixes f :: "'a \<Rightarrow> int"
  assumes "successively (\<lambda>a b. f a + 1 \<le> f b) cs" and "cs \<noteq> []"
  shows "f (hd cs) + int (length cs) - 1 \<le> f (last cs)"
  using assms
proof (induction cs rule: rev_induct)
  case Nil
  then show ?case by simp
next
  case (snoc x xs)
  show ?case
  proof (cases "xs = []")
    case True
    then show ?thesis by simp
  next
    case False
    then have "successively (\<lambda>a b. f a + 1 \<le> f b) xs" "f (last xs) + 1 \<le> f x"
      using snoc.prems(1) by (simp_all add: successively_append_iff)
    then show ?thesis using snoc.IH False by simp
  qed
qed

lemma bfs_steps_visit [simp]: "bfs_steps (bfs_visit dims cur dir st) = bfs_steps st"
  by (simp add: bfs_visit_def Let_def)

lemma bfs_steps_body: "bfs_steps (bfs_body dims cur rest st) = bfs_steps st @ [bfs_snap st cur]"
  by (simp add: bfs_body_def fold_DIRECTIONS bfs_pop_def)

definition bfs_trace_ok :: "Coordinate \<Rightarrow> Coordinate \<Rightarrow> AlgoStep list \<Rightarrow> bool" where
  "bfs_trace_ok start goal tr \<longleftrightarrow>
     tr \<noteq> [] \<and> current (hd tr) = Some start
     \<and> (\<forall>s \<in> set tr. frontier s \<subseteq> visited s)
     \<and> (\<forall>s \<in> set (butlast tr). path s = None)
     \<and> (\<forall>pth. path (last tr) = Some pth \<longrightarrow> good_path start goal pth)"

lemma bfs_general:
  "\<exists>tr. runBFS dims start goal = Some tr \<and> bfs_trace_ok start goal tr"
proof -
  let ?s = "coordToString start"
  let ?g = "coordToString goal"
  let ?I = "\<lambda>st. bfs_inv ?s st
      \<and> (if bfs_steps st = [] then bfs_queue st = [start]
         else current (hd (bfs_steps st)) = Some start)"
  let ?Q = "\<lambda>res. \<exists>tr. res = Some tr \<and> bfs_trace_ok start goal tr"
  let ?init = "\<lparr>bfs_steps = [], bfs_queue = [start], bfs_visited = {?s},
      bfs_parentMap = Map.empty, bfs_frontier = {?s}\<rparr>"
  have "?Q (bfs_loop dims ?g ?init)"
  proof (rule bfs_loop_rule [where I = ?I])
    show "?I ?init" using bfs_inv_init [of start] by simp
  next
    fix st assume I: "?I st" and q: "bfs_queue st = []"
    then have ne: "bfs_steps st \<noteq> []" by auto
    note D = bfs_invD [OF I [THEN conjunct1]]
    have "bfs_trace_ok start goal (bfs_steps st)"
      unfolding bfs_trace_ok_def using ne I D(2) by (auto dest: in_set_butlastD)
    then show "?Q (Some (bfs_steps st))" by simp
  next
    fix st cur rest
    assume I: "?I st" and q: "bfs_queue st = cur # rest" and g: "coordToString cur = ?g"
    have inv: "bfs_inv ?s st" using I by simp
    note D = bfs_invD [OF inv]
    have cg: "cur = goal" using g by simp
    have "coordToString goal \<in> bfs_visited st" using D(5) [of cur] q cg by simp
    from tree_ok_path [OF D(4) this]
    obtain pth where p: "reconstructPath (bfs_parentMap st) ?g = Some pth"
      "good_path start goal pth"
      by blast
    let ?tr = "bfs_steps st @ [bfs_snap st cur, bfs_final st cur pth]"
    have hd: "current (hd ?tr) = Some start"
    proof (cases "bfs_steps st = []")
      case True
      then have "cur = start" using I q by simp
      then show ?thesis using True by (simp add: bfs_snap_def)
    next
      case False
      then show ?thesis using I by simp
    qed
    have "butlast ?tr = bfs_steps st @ [bfs_snap st cur]"
      by (simp add: butlast_append)
    then have bl: "\<forall>s \<in> set (butlast ?tr). path s = None"
      using D(2) by (auto simp: bfs_snap_def)
    have fr: "\<forall>s \<in> set ?tr. frontier s \<subseteq> visited s"
      using D(1) D(2) by (auto simp: bfs_snap_def bfs_final_def)
    have "path (last ?tr) = Some pth" by (simp add: bfs_final_def)
    then have "bfs_trace_ok start goal ?tr"
      unfolding bfs_trace_ok_def using hd bl fr p by simp
    then show "?Q (map_option (\<lambda>pth. bfs_steps st @ [bfs_snap st cur, bfs_final st cur pth])
            (reconstructPath (bfs_parentMap st) ?g))"
      using p(1) by simp
  next
    fix st cur rest
    assume I: "?I st" and q: "bfs_queue st = cur # rest" and g: "coordToString cur \<noteq> ?g"
    have inv: "bfs_inv ?s st" using I by simp
    have "current (hd (bfs_steps st @ [bfs_snap st cur])) = Some start"
    proof (cases "bfs_steps st = []")
      case True
      then have "cur = start" using I q by simp
      then show ?thesis using True by (simp add: bfs_snap_def)
    next
      case False
      then show ?thesis using I by simp
    qed
    then show "?I (bfs_body dims cur rest st)"
      using bfs_inv_body [OF inv q] by (simp add: bfs_steps_body)
  qed
  then show ?thesis by (simp add: runBFS_def Let_def)
qed

definition bfs_shortest :: "GridDimensions \<Rightarrow> Coordinate \<Rightarrow> Coordinate \<Rightarrow> AlgoStep list \<Rightarrow> bool" where
  "bfs_shortest dims start goal tr \<longleftrightarrow>
     (\<exists>pth. path (last tr) = Some pth \<and> int (length pth) = heuristic start goal + 1)
     \<and> (\<forall>u. isValid u dims \<longrightarrow> heuristic start u \<le> heuristic start goal \<longrightarrow>
           coordToString u \<in> visited (last tr))
     \<and> visited (last tr) \<subseteq> validKeys dims
     \<and> current (last (butlast tr)) = Some goal
     \<and> visited (last (butlast tr)) = visited (last tr)"

lemma bfs_valid:
  assumes vs: "isValid start dims" and vg: "isValid goal dims"
  shows "\<exists>tr. runBFS dims start goal = Some tr \<and> bfs_shortest dims start goal tr"
proof -
  let ?s = "coordToString start"
  let ?g = "coordToString goal"
  let ?I = "\<lambda>st. bfs_inv ?s st \<and> bfs_lev_inv dims start goal st"
  let ?Q = "\<lambda>res. \<exists>tr. res = Some tr \<and> bfs_shortest dims start goal tr"
  let ?init = "\<lparr>bfs_steps = [], bfs_queue = [start], bfs_visited = {?s},
      bfs_parentMap = Map.empty, bfs_frontier = {?s}\<rparr>"
  have "?Q (bfs_loop dims ?g ?init)"
  proof (rule bfs_loop_rule [where I = ?I])
    show "?I ?init" using bfs_inv_init [of start] bfs_lev_inv_init [OF vs] by simp
  next
    fix st assume I: "?I st" and q: "bfs_queue st = []"
    have "coordToString goal \<in> bfs_visited st"
      using bfs_exhausted_all_visited [OF _ _ q vs vg] I by blast
    moreover have "bfs_goal_pending goal st" using I by (simp add: bfs_lev_inv_def)
    ultimately have False using q by (simp add: bfs_goal_pending_def)
    then show "?Q (Some (bfs_steps st))" ..
  next
    fix st cur rest
    assume I: "?I st" and q: "bfs_queue st = cur # rest" and g: "coordToString cur = ?g"
    have inv: "bfs_inv ?s st" and lev: "bfs_lev_inv dims start goal st" using I by simp_all
    note D = bfs_invD [OF inv]
    have cg: "cur = goal" using g by simp
    have "coordToString goal \<in> bfs_visited st" using D(5) [of cur] q cg by simp
    from tree_ok_path [OF D(4) this]
    obtain pth where p0: "reconstructPath (bfs_parentMap st) ?g = Some pth
      \<and> good_path start goal pth
      \<and> successively (\<lambda>a b. bfs_parentMap st (coordToString b) = Some (coordToString a)) pth" ..
    then have p: "reconstructPath (bfs_parentMap st) ?g = Some pth"
      "pth \<noteq> []" "hd pth = start" "last pth = goal"
      "successively (\<lambda>a b. bfs_parentMap st (coordToString b) = Some (coordToString a)) pth"
      by (simp_all add: good_path_def)
    have "successively (\<lambda>a b. heuristic start a + 1 = heuristic start b) pth"
    proof (rule successively_mono [OF p(5)])
      fix a b assume "bfs_parentMap st (coordToString b) = Some (coordToString a)"
      then show "heuristic start a + 1 = heuristic start b"
        using lev by (simp add: bfs_lev_inv_def bfs_levels_def)
    qed
    from chain_length [OF this p(2)]
    have len: "int (length pth) = heuristic start goal + 1"
      using p(3,4) by simp
    let ?tr = "bfs_steps st @ [bfs_snap st cur, bfs_final st cur pth]"
    have "bfs_below dims start st (heuristic start goal)"
      using bfs_below_head [OF inv lev q vs] cg by simp
    moreover have "bfs_inGrid dims st" using lev by (simp add: bfs_lev_inv_def)
    moreover have "butlast ?tr = bfs_steps st @ [bfs_snap st cur]"
      by (simp add: butlast_append)
    ultimately have "bfs_shortest dims start goal ?tr"
      unfolding bfs_shortest_def using len cg
      by (auto simp: bfs_final_def bfs_snap_def bfs_below_def bfs_inGrid_def)
    then show "?Q (map_option (\<lambda>pth. bfs_steps st @ [bfs_snap st cur, bfs_final st cur pth])
            (reconstructPath (bfs_parentMap st) ?g))"
      using p(1) by simp
  next
    fix st cur rest
    assume I: "?I st" and q: "bfs_queue st = cur # rest" and g: "coordToString cur \<noteq> ?g"
    have inv: "bfs_inv ?s st" and lev: "bfs_lev_inv dims start goal st" using I by simp_all
    have ng: "cur \<noteq> goal" using g by auto
    show "?I (bfs_body dims cur rest st)"
      using bfs_inv_body [OF inv q] bfs_lev_inv_body [OF inv lev q ng vs] by simp
  qed
  then show ?thesis by (simp add: runBFS_def Let_def)
qed


section \<open>Depth-first search\<close>

definition dfs_enter :: "Coordinate \<Rightarrow> int \<Rightarrow> DFSState \<Rightarrow> DFSState" where
  "dfs_enter cur dpt st =
     st\<lparr>dfs_visited := insert (coordToString cur) (dfs_visited st),
        dfs_recursionStack := insert (coordToString cur) (dfs_recursionStack st),
        dfs_steps := dfs_steps st @
          [\<lparr>visited = insert (coordToString cur) (dfs_visited st),
            frontier = insert (coordToString cur) (dfs_recursionStack st),
            current = Some cur, path = None, depth = Some dpt, costMap = None\<rparr>]\<rparr>"

definition dfs_finish :: "Coordinate list \<Rightarrow> DFSState \<Rightarrow> DFSState" where
  "dfs_finish pth st =
     st\<lparr>dfs_found := True,
        dfs_steps := dfs_steps st @
          [\<lparr>visited = dfs_visited st, frontier = dfs_recursionStack st, current = None,
            path = Some pth, depth = None, costMap = None\<rparr>]\<rparr>"

definition dfs_backtrack :: "Coordinate \<Rightarrow> int \<Rightarrow> DFSState \<Rightarrow> DFSState" where
  "dfs_backtrack cur dpt st =
     st\<lparr>dfs_recursionStack := dfs_recursionStack st - {coordToString cur},
        dfs_steps := dfs_steps st @
          [\<lparr>visited = dfs_visited st, frontier = dfs_recursionStack st - {coordToString cur},
            current = Some cur, path = None, depth = Some (dpt - 1), costMap = None\<rparr>]\<rparr>"

lemma dfs_entry_found:
  "dfs_found st \<Longrightarrow> dfs dims g cur dpt None st = Some st"
  by (subst dfs.simps) simp

lemma dfs_entry_goal:
  "\<not> dfs_found st \<Longrightarrow> coordToString cur = g \<Longrightarrow>
   dfs dims g cur dpt None st =
     map_option (\<lambda>pth. dfs_finish pth (dfs_enter cur dpt st)) (reconstructPath (dfs_parentMap st) g)"
  by (subst dfs.simps)
     (simp add: dfs_enter_def dfs_finish_def Let_def split: option.split)

lemma dfs_entry_step:
  "\<not> dfs_found st \<Longrightarrow> coordToString cur \<noteq> g \<Longrightarrow>
   dfs dims g cur dpt None st = dfs dims g cur dpt (Some DIRECTIONS) (dfs_enter cur dpt st)"
  by (subst dfs.simps) (simp add: dfs_enter_def Let_def)

lemma dfs_loop_nil: "dfs dims g cur dpt (Some []) st = Some (dfs_backtrack cur dpt st)"
  by (subst dfs.simps) (simp add: dfs_backtrack_def Let_def)

lemma dfs_loop_found:
  "dfs_found st \<Longrightarrow> dfs dims g cur dpt (Some (dir # rest)) st = Some st"
  by (subst dfs.simps) simp

lemma dfs_loop_rec:
  "\<not> dfs_found st \<Longrightarrow> isValid (nextCoord cur dir) dims \<Longrightarrow>
   coordToString (nextCoord cur dir) \<notin> dfs_visited st \<Longrightarrow>
   dfs dims g cur dpt (Some (dir # rest)) st =
     Option.bind
       (dfs dims g (nextCoord cur dir) (dpt + 1) None
          (st\<lparr>dfs_parentMap :=
               (dfs_parentMap st)(coordToString (nextCoord cur dir) \<mapsto> coordToString cur)\<rparr>))
       (\<lambda>st'. dfs dims g cur dpt (Some rest) st')"
  by (subst dfs.simps) (simp add: Let_def)

lemma dfs_loop_skip:
  "\<not> dfs_found st \<Longrightarrow>
   \<not> (isValid (nextCoord cur dir) dims \<and> coordToString (nextCoord cur dir) \<notin> dfs_visited st) \<Longrightarrow>
   dfs dims g cur dpt (Some (dir # rest)) st = dfs dims g cur dpt (Some rest) st"
  by (subst dfs.simps) (auto simp: Let_def)

definition dfs_common :: "Coordinate \<Rightarrow> Coordinate \<Rightarrow> DFSState \<Rightarrow> bool" where
  "dfs_common start goal st \<longleftrightarrow>
     dfs_recursionStack st \<subseteq> dfs_visited st
     \<and> (\<forall>x \<in> set (dfs_steps st). frontier x \<subseteq> visited x
           \<and> (\<forall>pth. path x = Some pth \<longrightarrow> good_path start goal pth))"

definition dfs_pre ::
  "GridDimensions \<Rightarrow> Coordinate \<Rightarrow> Coordinate \<Rightarrow> Coordinate \<Rightarrow> Coordinate list option
     \<Rightarrow> DFSState \<Rightarrow> bool" where
  "dfs_pre dims start goal cur pending st \<longleftrightarrow>
     dfs_common start goal st
     \<and> (case pending of
          None \<Rightarrow>
            tree_ok (coordToString start) (dfs_parentMap st)
              (insert (coordToString cur) (dfs_visited st))
            \<and> coordToString cur \<notin> dfs_visited st \<and> \<not> dfs_found st
            \<and> (isValid cur dims \<or> cur = start)
            \<and> (coordToString start \<in> dfs_visited st \<or> cur = start)
        | Some dirs \<Rightarrow>
            tree_ok (coordToString start) (dfs_parentMap st) (dfs_visited st)
            \<and> coordToString start \<in> dfs_visited st
            \<and> coordToString cur \<in> dfs_visited st
            \<and> set dirs \<subseteq> set DIRECTIONS)"

definition dfs_post ::
  "Coordinate \<Rightarrow> Coordinate \<Rightarrow> Coordinate \<Rightarrow> Coordinate list option \<Rightarrow> DFSState \<Rightarrow> DFSState
     \<Rightarrow> bool" where
  "dfs_post start goal cur pending st st' \<longleftrightarrow>
     dfs_common start goal st'
     \<and> tree_ok (coordToString start) (dfs_parentMap st') (dfs_visited st')
     \<and> coordToString start \<in> dfs_visited st'
     \<and> dfs_visited st \<subseteq> dfs_visited st'
     \<and> (\<exists>more. dfs_steps st' = dfs_steps st @ more
           \<and> (pending = None \<longrightarrow> more \<noteq> [] \<and> current (hd more) = Some cur))"

definition dfs_size :: "GridDimensions \<Rightarrow> Coordinate \<Rightarrow> Coordinate list option \<Rightarrow> DFSState \<Rightarrow> nat \<times> nat" where
  "dfs_size dims start pending st =
     (card (insert (coordToString start) (validKeys dims) - dfs_visited st),
      case pending of None \<Rightarrow> 0 | Some dirs \<Rightarrow> Suc (length dirs))"

lemma dfs_size_enter:
  assumes "coordToString cur \<notin> dfs_visited st" and "isValid cur dims \<or> cur = start"
  shows "(dfs_size dims start (Some dirs) (dfs_enter cur dpt st), dfs_size dims start None st)
     \<in> less_than <*lex*> less_than"
proof -
  let ?V = "insert (coordToString start) (validKeys dims)"
  have k: "coordToString cur \<in> ?V - dfs_visited st" using assms by auto
  have fin: "finite (?V - dfs_visited st)" by (simp add: finite_validKeys)
  have "?V - insert (coordToString cur) (dfs_visited st) = (?V - dfs_visited st) - {coordToString cur}"
    by auto
  then have "card (?V - insert (coordToString cur) (dfs_visited st)) < card (?V - dfs_visited st)"
    using k fin by (metis card_Diff1_less)
  then show ?thesis by (simp add: dfs_size_def dfs_enter_def)
qed

lemma dfs_size_mono:
  assumes "dfs_visited st \<subseteq> dfs_visited st'"
  shows "(dfs_size dims start (Some rest) st', dfs_size dims start (Some (dir # rest)) st)
     \<in> less_than <*lex*> less_than"
proof -
  let ?V = "insert (coordToString start) (validKeys dims)"
  have "card (?V - dfs_visited st') \<le> card (?V - dfs_visited st)"
    using assms by (intro card_mono) (auto simp: finite_validKeys)
  then show ?thesis by (auto simp: dfs_size_def)
qed

lemma dfs_common_enter:
  assumes "dfs_common start goal st"
  shows "dfs_common start goal (dfs_enter cur dpt st)"
  using assms by (auto simp: dfs_common_def dfs_enter_def)

lemma dfs_common_backtrack:
  assumes "dfs_common start goal st"
  shows "dfs_common start goal (dfs_backtrack cur dpt st)"
  using assms by (auto simp: dfs_common_def dfs_backtrack_def)

lemma dfs_common_finish:
  assumes "dfs_common start goal st" and "good_path start goal pth"
  shows "dfs_common start goal (dfs_finish pth st)"
  using assms by (auto simp: dfs_common_def dfs_finish_def)

lemma wf_lex_nat: "wf (less_than <*lex*> less_than)"
  by (intro wf_lex_prod wf_less_than)

lemma dfs_total:
  assumes "dfs_pre dims start goal cur pending st"
  shows "\<exists>st'. dfs dims (coordToString goal) cur dpt pending st = Some st'
     \<and> dfs_post start goal cur pending st st'"
  using assms
proof (induction "dfs_size dims start pending st" arbitrary: cur dpt pending st
    rule: wf_induct_rule [OF wf_lex_nat])
  case 1
  let ?s = "coordToString start"
  let ?g = "coordToString goal"
  have com: "dfs_common start goal st" using "1.prems" by (simp add: dfs_pre_def)
  show ?case
  proof (cases pending)
    case None
    have P: "tree_ok ?s (dfs_parentMap st) (insert (coordToString cur) (dfs_visited st))"
      "coordToString cur \<notin> dfs_visited st" "\<not> dfs_found st"
      "isValid cur dims \<or> cur = start" "?s \<in> dfs_visited st \<or> cur = start"
      using "1.prems" None by (simp_all add: dfs_pre_def)
    let ?st = "dfs_enter cur dpt st"
    have vis: "dfs_visited ?st = insert (coordToString cur) (dfs_visited st)"
      and pm: "dfs_parentMap ?st = dfs_parentMap st"
      by (simp_all add: dfs_enter_def)
    have sv: "?s \<in> dfs_visited ?st" using P(5) vis by auto
    have steps: "\<exists>more. dfs_steps ?st = dfs_steps st @ more \<and> more \<noteq> []
        \<and> current (hd more) = Some cur"
      by (simp add: dfs_enter_def)
    show ?thesis
    proof (cases "coordToString cur = ?g")
      case True
      then have "?g \<in> insert (coordToString cur) (dfs_visited st)" by simp
      from tree_ok_path [OF P(1) this]
      obtain pth where p: "reconstructPath (dfs_parentMap st) ?g = Some pth"
        "good_path start goal pth" by blast
      let ?st' = "dfs_finish pth ?st"
      have res: "dfs dims ?g cur dpt None st = Some ?st'"
        using P(3) True p(1) by (simp add: dfs_entry_goal)
      have "dfs_common start goal ?st'"
        by (intro dfs_common_finish dfs_common_enter com p(2))
      moreover have "tree_ok ?s (dfs_parentMap ?st') (dfs_visited ?st')"
        using P(1) by (simp add: dfs_finish_def dfs_enter_def)
      moreover have "?s \<in> dfs_visited ?st'" using sv by (simp add: dfs_finish_def)
      moreover have "dfs_visited st \<subseteq> dfs_visited ?st'"
        by (auto simp: dfs_finish_def dfs_enter_def)
      moreover have "\<exists>more. dfs_steps ?st' = dfs_steps st @ more \<and> more \<noteq> []
          \<and> current (hd more) = Some cur"
        by (simp add: dfs_finish_def dfs_enter_def)
      ultimately have "dfs_post start goal cur None st ?st'"
        by (simp add: dfs_post_def)
      then show ?thesis using res None by simp
    next
      case False
      have eq: "dfs dims ?g cur dpt None st = dfs dims ?g cur dpt (Some DIRECTIONS) ?st"
        using P(3) False by (rule dfs_entry_step)
      have pre: "dfs_pre dims start goal cur (Some DIRECTIONS) ?st"
        using P(1) sv dfs_common_enter [OF com] vis pm by (simp add: dfs_pre_def)
      have "(dfs_size dims start (Some DIRECTIONS) ?st, dfs_size dims start pending st)
          \<in> less_than <*lex*> less_than"
        using dfs_size_enter [OF P(2) P(4)] None by simp
      from "1.hyps" [OF this pre]
      obtain st' where r: "dfs dims ?g cur dpt (Some DIRECTIONS) ?st = Some st'"
        "dfs_post start goal cur (Some DIRECTIONS) ?st st'" by blast
      obtain more where m: "dfs_steps st' = dfs_steps ?st @ more"
        using r(2) by (auto simp: dfs_post_def)
      have "dfs_steps st' = dfs_steps st @
          (\<lparr>visited = insert (coordToString cur) (dfs_visited st),
            frontier = insert (coordToString cur) (dfs_recursionStack st),
            current = Some cur, path = None, depth = Some dpt, costMap = None\<rparr> # more)"
        using m by (simp add: dfs_enter_def)
      then have "\<exists>more. dfs_steps st' = dfs_steps st @ more \<and> more \<noteq> []
          \<and> current (hd more) = Some cur"
        by (intro exI [of _ "\<lparr>visited = insert (coordToString cur) (dfs_visited st),
            frontier = insert (coordToString cur) (dfs_recursionStack st),
            current = Some cur, path = None, depth = Some dpt, costMap = None\<rparr> # more"]) simp
      moreover have "dfs_visited st \<subseteq> dfs_visited st'"
        using r(2) vis by (auto simp: dfs_post_def)
      ultimately have "dfs_post start goal cur None st st'"
        using r(2) by (simp add: dfs_post_def)
      then show ?thesis using r(1) eq None by simp
    qed
  next
    case (Some dirs)
    have P: "tree_ok ?s (dfs_parentMap st) (dfs_visited st)" "?s \<in> dfs_visited st"
      "coordToString cur \<in> dfs_visited st" "set dirs \<subseteq> set DIRECTIONS"
      using "1.prems" Some by (simp_all add: dfs_pre_def)
    have refl: "dfs_post start goal cur (Some dirs) st st"
      using com P by (simp add: dfs_post_def)
    show ?thesis
    proof (cases dirs)
      case Nil
      have "dfs_post start goal cur (Some []) st (dfs_backtrack cur dpt st)"
        using dfs_common_backtrack [OF com] P
        by (simp add: dfs_post_def) (simp add: dfs_backtrack_def)
      then show ?thesis using Some Nil by (simp add: dfs_loop_nil)
    next
      case (Cons dir rest)
      have dir: "dir \<in> set DIRECTIONS" and rest: "set rest \<subseteq> set DIRECTIONS"
        using P(4) Cons by simp_all
      show ?thesis
      proof (cases "dfs_found st")
        case True
        then show ?thesis using refl Some Cons by (simp add: dfs_loop_found)
      next
        case nf: False
        let ?n = "nextCoord cur dir"
        show ?thesis
        proof (cases "isValid ?n dims \<and> coordToString ?n \<notin> dfs_visited st")
          case False
          have eq: "dfs dims ?g cur dpt (Some (dir # rest)) st = dfs dims ?g cur dpt (Some rest) st"
            using nf False by (rule dfs_loop_skip)
          have pre: "dfs_pre dims start goal cur (Some rest) st"
            using com P rest by (simp add: dfs_pre_def)
          have "(dfs_size dims start (Some rest) st, dfs_size dims start pending st)
              \<in> less_than <*lex*> less_than"
            using dfs_size_mono [of st st dims start rest dir] Some Cons by simp
          from "1.hyps" [OF this pre]
          obtain st' where r: "dfs dims ?g cur dpt (Some rest) st = Some st'"
            "dfs_post start goal cur (Some rest) st st'" by blast
          have "dfs_post start goal cur (Some dirs) st st'"
            using r(2) by (simp add: dfs_post_def)
          then show ?thesis using r(1) eq Some Cons by simp
        next
          case True
          let ?stp = "st\<lparr>dfs_parentMap :=
               (dfs_parentMap st)(coordToString ?n \<mapsto> coordToString cur)\<rparr>"
          have eq: "dfs dims ?g cur dpt (Some (dir # rest)) st =
              Option.bind (dfs dims ?g ?n (dpt + 1) None ?stp)
                (\<lambda>st'. dfs dims ?g cur dpt (Some rest) st')"
            using nf True by (intro dfs_loop_rec) simp_all
          have t: "tree_ok ?s (dfs_parentMap ?stp) (insert (coordToString ?n) (dfs_visited ?stp))"
            using True by (simp, intro tree_ok_add P adjacent_nextCoord dir) simp
          have "dfs_common start goal ?stp" using com by (simp add: dfs_common_def)
          then have pre1: "dfs_pre dims start goal ?n None ?stp"
            using t True nf P(2) by (simp add: dfs_pre_def)
          have "(dfs_size dims start None ?stp, dfs_size dims start pending st)
              \<in> less_than <*lex*> less_than"
            using Some by (simp add: dfs_size_def)
          from "1.hyps" [OF this pre1, of "dpt + 1"]
          obtain st1 where r1: "dfs dims ?g ?n (dpt + 1) None ?stp = Some st1"
            "dfs_post start goal ?n None ?stp st1" by blast
          have Q1: "dfs_common start goal st1"
            "tree_ok ?s (dfs_parentMap st1) (dfs_visited st1)" "?s \<in> dfs_visited st1"
            "dfs_visited st \<subseteq> dfs_visited st1"
            using r1(2) by (simp_all add: dfs_post_def)
          obtain more1 where m1: "dfs_steps st1 = dfs_steps st @ more1"
            using r1(2) by (auto simp: dfs_post_def)
          have pre2: "dfs_pre dims start goal cur (Some rest) st1"
            using Q1 P(3) rest by (auto simp: dfs_pre_def)
          have "(dfs_size dims start (Some rest) st1, dfs_size dims start pending st)
              \<in> less_than <*lex*> less_than"
            using dfs_size_mono [OF Q1(4), of dims start rest dir] Some Cons by simp
          from "1.hyps" [OF this pre2, of dpt]
          obtain st2 where r2: "dfs dims ?g cur dpt (Some rest) st1 = Some st2"
            "dfs_post start goal cur (Some rest) st1 st2" by blast
          obtain more2 where m2: "dfs_steps st2 = dfs_steps st1 @ more2"
            using r2(2) by (auto simp: dfs_post_def)
          have "dfs_steps st2 = dfs_steps st @ (more1 @ more2)" using m1 m2 by simp
          moreover have "dfs_visited st \<subseteq> dfs_visited st2"
            using Q1(4) r2(2) by (auto simp: dfs_post_def)
          ultimately have "dfs_post start goal cur (Some dirs) st st2"
            using r2(2) by (simp add: dfs_post_def)
          then show ?thesis using eq r1(1) r2(1) Some Cons by simp
        qed
      qed
    qed
  qed
qed

definition dfs_trace_ok :: "Coordinate \<Rightarrow> Coordinate \<Rightarrow> AlgoStep list \<Rightarrow> bool" where
  "dfs_trace_ok start goal tr \<longleftrightarrow>
     tr \<noteq> [] \<and> current (hd tr) = Some start
     \<and> (\<forall>s \<in> set tr. frontier s \<subseteq> visited s)
     \<and> (\<forall>s \<in> set tr. \<forall>pth. path s = Some pth \<longrightarrow> good_path start goal pth)"

lemma dfs_general:
  "\<exists>tr. runDFSRecursive dims start goal = Some tr \<and> dfs_trace_ok start goal tr"
proof -
  let ?init = "\<lparr>dfs_steps = [], dfs_visited = {}, dfs_parentMap = Map.empty,
      dfs_recursionStack = {}, dfs_found = False\<rparr>"
  have "dfs_pre dims start goal start None ?init"
    by (simp add: dfs_pre_def dfs_common_def tree_ok_empty)
  from dfs_total [OF this, of 0]
  obtain st' where r: "dfs dims (coordToString goal) start 0 None ?init = Some st'"
    "dfs_post start goal start None ?init st'" by blast
  have "dfs_trace_ok start goal (dfs_steps st')"
    using r(2) by (auto simp: dfs_post_def dfs_common_def dfs_trace_ok_def)
  then show ?thesis using r(1) by (simp add: runDFSRecursive_def Let_def)
qed


section \<open>Dijkstra and A*: the common state\<close>

text \<open>
  runDijkstra and runAStar keep the same five structures and differ in the priority of a
  queue entry: the new cost alone, or the new cost plus the Manhattan distance to the goal.
  The invariants are stated once, on the record \<open>CostState\<close> of these structures, for a
  step \<open>cs_relax h\<close> whose priority is the new cost plus \<open>h\<close>; \<open>dij_relax\<close> is this step
  for \<open>h = 0\<close>, \<open>ast_relax\<close> for the heuristic.
\<close>

record CostState =
  cs_pq :: "string PQItem list"
  cs_g :: "string \<rightharpoonup> int"
  cs_pm :: "string \<rightharpoonup> string"
  cs_visited :: "string set"
  cs_frontier :: "string set"

definition cs_relax ::
  "(Coordinate \<Rightarrow> int) \<Rightarrow> GridDimensions \<Rightarrow> string \<Rightarrow> Coordinate \<Rightarrow> Coordinate \<Rightarrow> CostState
     \<Rightarrow> CostState" where
  "cs_relax h dims currStr cur dir cs =
     (let next = nextCoord cur dir;
          nextStr = coordToString next
      in if isValid next dims
         then
           (let newG = (case cs_g cs currStr of None \<Rightarrow> 0 | Some d \<Rightarrow> d) + 1
            in if (case cs_g cs nextStr of None \<Rightarrow> True | Some d \<Rightarrow> newG < d)
               then cs\<lparr>cs_g := (cs_g cs)(nextStr \<mapsto> newG),
                       cs_pm := (cs_pm cs)(nextStr \<mapsto> currStr),
                       cs_pq := enqueue (cs_pq cs) nextStr (Num (newG + h next)),
                       cs_frontier := insert nextStr (cs_frontier cs)\<rparr>
               else cs)
         else cs)"

definition cs_pop :: "string \<Rightarrow> string PQItem list \<Rightarrow> CostState \<Rightarrow> CostState" where
  "cs_pop currStr pq1 cs =
     cs\<lparr>cs_pq := pq1, cs_frontier := cs_frontier cs - {currStr},
        cs_visited := insert currStr (cs_visited cs)\<rparr>"

definition cs_body ::
  "(Coordinate \<Rightarrow> int) \<Rightarrow> GridDimensions \<Rightarrow> string \<Rightarrow> string PQItem list \<Rightarrow> CostState
     \<Rightarrow> CostState" where
  "cs_body h dims currStr pq1 cs =
     (case stringToCoord currStr of
        None \<Rightarrow> cs_pop currStr pq1 cs
      | Some c \<Rightarrow> fold (cs_relax h dims currStr c) DIRECTIONS (cs_pop currStr pq1 cs))"

definition cost_trace_ok :: "Coordinate \<Rightarrow> Coordinate \<Rightarrow> AlgoStep list \<Rightarrow> bool" where
  "cost_trace_ok start goal tr \<longleftrightarrow>
     tr \<noteq> [] \<and> current (hd tr) = Some start
     \<and> (\<forall>s \<in> set (butlast tr). path s = None)
     \<and> (\<forall>pth. path (last tr) = Some pth \<longrightarrow> good_path start goal pth)"

subsection \<open>Termination measure\<close>

definition cs_nonneg :: "CostState \<Rightarrow> bool" where
  "cs_nonneg cs \<longleftrightarrow> (\<forall>k d. cs_g cs k = Some d \<longrightarrow> 0 \<le> d)"

definition cs_cost :: "CostState \<Rightarrow> string \<Rightarrow> enat" where
  "cs_cost cs k = (case cs_g cs k of None \<Rightarrow> \<infinity> | Some d \<Rightarrow> enat (nat d))"

definition cs_measure :: "GridDimensions \<Rightarrow> CostState \<Rightarrow> enat multiset \<times> nat" where
  "cs_measure dims cs = (image_mset (cs_cost cs) (mset_set (validKeys dims)), length (cs_pq cs))"

definition cs_less :: "((enat multiset \<times> nat) \<times> (enat multiset \<times> nat)) set" where
  "cs_less = {(M, N). M < N} <*lex*> less_than"

lemma wf_cs_less: "wf cs_less"
  unfolding cs_less_def by (intro wf_lex_prod wf_less_multiset wf_less_than)

lemma image_mset_decrease:
  fixes f f' :: "'a \<Rightarrow> enat"
  assumes fin: "finite V" and k: "k \<in> V" and lt: "f' k < f k"
    and same: "\<And>j. j \<noteq> k \<Longrightarrow> f' j = f j"
  shows "image_mset f' (mset_set V) < image_mset f (mset_set V)"
proof -
  have V: "mset_set V = add_mset k (mset_set (V - {k}))"
    using fin k by (metis mset_set.remove)
  have "image_mset f' (mset_set (V - {k})) = image_mset f (mset_set (V - {k}))"
    using fin same by (intro image_mset_cong) simp
  then show ?thesis
    using lt by (subst (1 2) V) simp
qed

lemma cs_relax_cases:
  assumes nn: "cs_nonneg cs"
  shows "cs_relax h dims currStr cur dir cs = cs
     \<or> (cs_nonneg (cs_relax h dims currStr cur dir cs)
        \<and> image_mset (cs_cost (cs_relax h dims currStr cur dir cs)) (mset_set (validKeys dims))
            < image_mset (cs_cost cs) (mset_set (validKeys dims)))"
proof -
  let ?n = "nextCoord cur dir"
  let ?k = "coordToString ?n"
  let ?newG = "(case cs_g cs currStr of None \<Rightarrow> 0 | Some d \<Rightarrow> d) + 1"
  show ?thesis
  proof (cases "isValid ?n dims \<and> (case cs_g cs ?k of None \<Rightarrow> True | Some d \<Rightarrow> ?newG < d)")
    case False
    then have "cs_relax h dims currStr cur dir cs = cs"
      by (auto simp: cs_relax_def Let_def)
    then show ?thesis ..
  next
    case True
    let ?cs = "cs\<lparr>cs_g := (cs_g cs)(?k \<mapsto> ?newG),
                   cs_pm := (cs_pm cs)(?k \<mapsto> currStr),
                   cs_pq := enqueue (cs_pq cs) ?k (Num (?newG + h ?n)),
                   cs_frontier := insert ?k (cs_frontier cs)\<rparr>"
    have eq: "cs_relax h dims currStr cur dir cs = ?cs"
      using True by (simp add: cs_relax_def Let_def)
    have pos: "1 \<le> ?newG"
      using nn by (auto simp: cs_nonneg_def split: option.split)
    have 1: "cs_nonneg ?cs"
      using nn pos by (auto simp: cs_nonneg_def)
    have lt: "cs_cost ?cs ?k < cs_cost cs ?k"
      using True pos by (auto simp: cs_cost_def split: option.splits)
    have "image_mset (cs_cost ?cs) (mset_set (validKeys dims))
        < image_mset (cs_cost cs) (mset_set (validKeys dims))"
      using True lt by (intro image_mset_decrease [where k = ?k] finite_validKeys)
        (simp_all add: cs_cost_def)
    then show ?thesis using eq 1 by simp
  qed
qed

lemma cs_relax_measure:
  assumes nn: "cs_nonneg cs"
    and m: "(cs_measure dims cs, M) \<in> cs_less \<or> (cs_measure dims cs = M)"
  shows "cs_nonneg (cs_relax h dims currStr cur dir cs)
     \<and> ((cs_measure dims (cs_relax h dims currStr cur dir cs), M) \<in> cs_less
         \<or> cs_relax h dims currStr cur dir cs = cs)"
proof -
  from cs_relax_cases [OF nn, of h dims currStr cur dir]
  show ?thesis
  proof
    assume "cs_relax h dims currStr cur dir cs = cs"
    then show ?thesis using nn by simp
  next
    let ?cs = "cs_relax h dims currStr cur dir cs"
    assume a: "cs_nonneg ?cs
      \<and> image_mset (cs_cost ?cs) (mset_set (validKeys dims))
          < image_mset (cs_cost cs) (mset_set (validKeys dims))"
    then have "fst (cs_measure dims ?cs) < fst (cs_measure dims cs)"
      by (simp add: cs_measure_def)
    moreover have "fst (cs_measure dims cs) \<le> fst M"
      using m by (cases M, cases "cs_measure dims cs") (auto simp: cs_less_def)
    ultimately have "fst (cs_measure dims ?cs) < fst M" by simp
    then have "(cs_measure dims ?cs, M) \<in> cs_less"
      by (cases M, cases "cs_measure dims ?cs") (simp add: cs_less_def)
    then show ?thesis using a by simp
  qed
qed

lemma cs_relax_keeps:
  assumes "cs_nonneg cs \<and> (cs_measure dims cs, M) \<in> cs_less"
  shows "cs_nonneg (cs_relax h dims currStr cur dir cs)
     \<and> (cs_measure dims (cs_relax h dims currStr cur dir cs), M) \<in> cs_less"
  using cs_relax_measure [of cs dims M h currStr cur dir] assms by auto

lemma cs_body_measure:
  assumes nn: "cs_nonneg cs" and len: "length pq1 < length (cs_pq cs)"
  shows "cs_nonneg (cs_body h dims currStr pq1 cs)
     \<and> (cs_measure dims (cs_body h dims currStr pq1 cs), cs_measure dims cs) \<in> cs_less"
proof -
  let ?cs = "cs_pop currStr pq1 cs"
  have "cs_cost ?cs = cs_cost cs" by (rule ext) (simp add: cs_cost_def cs_pop_def)
  then have "(cs_measure dims ?cs, cs_measure dims cs) \<in> cs_less"
    using len by (simp add: cs_measure_def cs_less_def cs_pop_def)
  moreover have "cs_nonneg ?cs" using nn by (simp add: cs_nonneg_def cs_pop_def)
  ultimately have P: "cs_nonneg ?cs \<and> (cs_measure dims ?cs, cs_measure dims cs) \<in> cs_less"
    by simp
  show ?thesis
  proof (cases "stringToCoord currStr")
    case None
    then show ?thesis using P by (simp add: cs_body_def)
  next
    case (Some c)
    then show ?thesis
      unfolding cs_body_def fold_DIRECTIONS
      by (simp del: fold_simps) (intro cs_relax_keeps P)
  qed
qed

lemma dequeue_Some:
  assumes "h \<noteq> []"
  shows "\<exists>pq1. dequeue h = (Some (item (h ! 0)), pq1) \<and> length pq1 < length h"
proof -
  have "length (snd (dequeue h)) < length h"
    using assms by (simp add: length_dequeue)
  moreover have "fst (dequeue h) = Some (item (h ! 0))"
    using assms by (simp add: dequeue_def isEmpty_def Let_def)
  ultimately show ?thesis by (cases "dequeue h") auto
qed

subsection \<open>runDijkstra as a loop over the common state\<close>

definition dij_abs :: "DijkstraState \<Rightarrow> CostState" where
  "dij_abs st =
     \<lparr>cs_pq = dij_pq st, cs_g = dij_distances st, cs_pm = dij_parentMap st,
      cs_visited = dij_visited st, cs_frontier = dij_frontier st\<rparr>"

definition dij_snap :: "DijkstraState \<Rightarrow> string \<Rightarrow> AlgoStep" where
  "dij_snap st currStr =
     \<lparr>visited = insert currStr (dij_visited st), frontier = dij_frontier st - {currStr},
      current = stringToCoord currStr, path = None, depth = None,
      costMap = Some (dij_distances st)\<rparr>"

definition dij_final :: "DijkstraState \<Rightarrow> string \<Rightarrow> Coordinate list \<Rightarrow> AlgoStep" where
  "dij_final st currStr pth =
     \<lparr>visited = insert currStr (dij_visited st), frontier = dij_frontier st - {currStr},
      current = None, path = Some pth, depth = None, costMap = Some (dij_distances st)\<rparr>"

definition dij_body ::
  "GridDimensions \<Rightarrow> string \<Rightarrow> string PQItem list \<Rightarrow> DijkstraState \<Rightarrow> DijkstraState" where
  "dij_body dims currStr pq1 st =
     (let st1 = st\<lparr>dij_pq := pq1, dij_frontier := dij_frontier st - {currStr},
                    dij_visited := insert currStr (dij_visited st),
                    dij_steps := dij_steps st @ [dij_snap st currStr]\<rparr>
      in case stringToCoord currStr of
           None \<Rightarrow> st1
         | Some c \<Rightarrow> fold (dij_relax dims currStr c) DIRECTIONS st1)"

lemma dij_loop_empty: "dij_pq st = [] \<Longrightarrow> dij_loop dims g st = Some (dij_steps st)"
  by (subst dij_loop.simps) (simp add: isEmpty_def)

lemma dij_loop_goal:
  "dij_pq st \<noteq> [] \<Longrightarrow> dequeue (dij_pq st) = (Some g, pq1) \<Longrightarrow>
   dij_loop dims g st =
     map_option (\<lambda>pth. dij_steps st @ [dij_snap st g, dij_final st g pth])
       (reconstructPath (dij_parentMap st) g)"
  by (subst dij_loop.simps)
     (simp add: isEmpty_def dij_snap_def dij_final_def Let_def split: option.split)

lemma dij_loop_step:
  "dij_pq st \<noteq> [] \<Longrightarrow> dequeue (dij_pq st) = (Some currStr, pq1) \<Longrightarrow> currStr \<noteq> g \<Longrightarrow>
   dij_loop dims g st = dij_loop dims g (dij_body dims currStr pq1 st)"
  by (subst dij_loop.simps)
     (simp add: isEmpty_def dij_body_def dij_snap_def Let_def)

lemma dij_abs_relax:
  "dij_abs (dij_relax dims currStr cur dir st) = cs_relax (\<lambda>_. 0) dims currStr cur dir (dij_abs st)"
  by (simp add: dij_abs_def dij_relax_def cs_relax_def Let_def)

lemma dij_steps_relax [simp]: "dij_steps (dij_relax dims currStr cur dir st) = dij_steps st"
  by (simp add: dij_relax_def Let_def)

lemma dij_abs_body:
  "dij_abs (dij_body dims currStr pq1 st) = cs_body (\<lambda>_. 0) dims currStr pq1 (dij_abs st)"
  by (cases "stringToCoord currStr")
     (simp_all add: dij_body_def cs_body_def fold_DIRECTIONS dij_abs_relax Let_def,
      simp_all add: dij_abs_def cs_pop_def)

lemma dij_steps_body:
  "dij_steps (dij_body dims currStr pq1 st) = dij_steps st @ [dij_snap st currStr]"
  by (cases "stringToCoord currStr") (simp_all add: dij_body_def fold_DIRECTIONS Let_def)

lemma dij_loop_rule:
  assumes init: "I st"
    and nonneg: "\<And>st. I st \<Longrightarrow> cs_nonneg (dij_abs st)"
    and empty: "\<And>st. I st \<Longrightarrow> dij_pq st = [] \<Longrightarrow> Q (Some (dij_steps st))"
    and goal: "\<And>st pq1. I st \<Longrightarrow> dij_pq st \<noteq> [] \<Longrightarrow> dequeue (dij_pq st) = (Some g, pq1) \<Longrightarrow>
       Q (map_option (\<lambda>pth. dij_steps st @ [dij_snap st g, dij_final st g pth])
            (reconstructPath (dij_parentMap st) g))"
    and step: "\<And>st currStr pq1. I st \<Longrightarrow> dij_pq st \<noteq> [] \<Longrightarrow>
       dequeue (dij_pq st) = (Some currStr, pq1) \<Longrightarrow> currStr \<noteq> g \<Longrightarrow>
       I (dij_body dims currStr pq1 st)"
  shows "Q (dij_loop dims g st)"
  using init
proof (induction "cs_measure dims (dij_abs st)" arbitrary: st rule: wf_induct_rule [OF wf_cs_less])
  case 1
  show ?case
  proof (cases "dij_pq st = []")
    case True
    then show ?thesis using empty [OF "1.prems"] by (simp add: dij_loop_empty)
  next
    case False
    then obtain pq1 where d: "dequeue (dij_pq st) = (Some (item (dij_pq st ! 0)), pq1)"
      "length pq1 < length (dij_pq st)"
      using dequeue_Some by blast
    let ?c = "item (dij_pq st ! 0)"
    show ?thesis
    proof (cases "?c = g")
      case True
      then show ?thesis
        using goal [OF "1.prems" False, of pq1] d(1) False by (simp add: dij_loop_goal)
    next
      case ng: False
      have "(cs_measure dims (dij_abs (dij_body dims ?c pq1 st)), cs_measure dims (dij_abs st))
          \<in> cs_less"
        using cs_body_measure [OF nonneg [OF "1.prems"], of pq1 "\<lambda>_. 0" dims ?c] d(2)
        by (simp add: dij_abs_body) (simp add: dij_abs_def)
      then have "Q (dij_loop dims g (dij_body dims ?c pq1 st))"
        using step [OF "1.prems" False d(1) ng] by (rule "1.hyps")
      then show ?thesis using False d(1) ng by (simp add: dij_loop_step)
    qed
  qed
qed


subsection \<open>runAStar as a loop over the common state\<close>

definition ast_abs :: "AStarState \<Rightarrow> CostState" where
  "ast_abs st =
     \<lparr>cs_pq = ast_pq st, cs_g = ast_gScore st, cs_pm = ast_parentMap st,
      cs_visited = ast_visited st, cs_frontier = ast_frontier st\<rparr>"

definition ast_snap :: "AStarState \<Rightarrow> string \<Rightarrow> AlgoStep" where
  "ast_snap st currStr =
     \<lparr>visited = insert currStr (ast_visited st), frontier = ast_frontier st - {currStr},
      current = stringToCoord currStr, path = None, depth = None,
      costMap = Some (ast_gScore st)\<rparr>"

definition ast_final :: "AStarState \<Rightarrow> string \<Rightarrow> Coordinate list \<Rightarrow> AlgoStep" where
  "ast_final st currStr pth =
     \<lparr>visited = insert currStr (ast_visited st), frontier = ast_frontier st - {currStr},
      current = None, path = Some pth, depth = None, costMap = Some (ast_gScore st)\<rparr>"

definition ast_body ::
  "GridDimensions \<Rightarrow> Coordinate \<Rightarrow> string \<Rightarrow> string PQItem list \<Rightarrow> AStarState \<Rightarrow> AStarState"
  where
  "ast_body dims goal currStr pq1 st =
     (let st1 = st\<lparr>ast_pq := pq1, ast_frontier := ast_frontier st - {currStr},
                    ast_visited := insert currStr (ast_visited st),
                    ast_steps := ast_steps st @ [ast_snap st currStr]\<rparr>
      in case stringToCoord currStr of
           None \<Rightarrow> st1
         | Some c \<Rightarrow> fold (ast_relax dims goal currStr c) DIRECTIONS st1)"

lemma ast_loop_empty: "ast_pq st = [] \<Longrightarrow> ast_loop dims goal g st = Some (ast_steps st)"
  by (subst ast_loop.simps) (simp add: isEmpty_def)

lemma ast_loop_goal:
  "ast_pq st \<noteq> [] \<Longrightarrow> dequeue (ast_pq st) = (Some g, pq1) \<Longrightarrow>
   ast_loop dims goal g st =
     map_option (\<lambda>pth. ast_steps st @ [ast_snap st g, ast_final st g pth])
       (reconstructPath (ast_parentMap st) g)"
  by (subst ast_loop.simps)
     (simp add: isEmpty_def ast_snap_def ast_final_def Let_def split: option.split)

lemma ast_loop_step:
  "ast_pq st \<noteq> [] \<Longrightarrow> dequeue (ast_pq st) = (Some currStr, pq1) \<Longrightarrow> currStr \<noteq> g \<Longrightarrow>
   ast_loop dims goal g st = ast_loop dims goal g (ast_body dims goal currStr pq1 st)"
  by (subst ast_loop.simps)
     (simp add: isEmpty_def ast_body_def ast_snap_def Let_def)

lemma ast_abs_relax:
  "ast_abs (ast_relax dims goal currStr cur dir st) = cs_relax (\<lambda>c. heuristic c goal) dims currStr cur dir (ast_abs st)"
  by (simp add: ast_abs_def ast_relax_def cs_relax_def Let_def)

lemma ast_steps_relax [simp]: "ast_steps (ast_relax dims goal currStr cur dir st) = ast_steps st"
  by (simp add: ast_relax_def Let_def)

lemma ast_abs_body:
  "ast_abs (ast_body dims goal currStr pq1 st) = cs_body (\<lambda>c. heuristic c goal) dims currStr pq1 (ast_abs st)"
  by (cases "stringToCoord currStr")
     (simp_all add: ast_body_def cs_body_def fold_DIRECTIONS ast_abs_relax Let_def,
      simp_all add: ast_abs_def cs_pop_def)

lemma ast_steps_body:
  "ast_steps (ast_body dims goal currStr pq1 st) = ast_steps st @ [ast_snap st currStr]"
  by (cases "stringToCoord currStr") (simp_all add: ast_body_def fold_DIRECTIONS Let_def)

lemma ast_loop_rule:
  assumes init: "I st"
    and nonneg: "\<And>st. I st \<Longrightarrow> cs_nonneg (ast_abs st)"
    and empty: "\<And>st. I st \<Longrightarrow> ast_pq st = [] \<Longrightarrow> Q (Some (ast_steps st))"
    and goal: "\<And>st pq1. I st \<Longrightarrow> ast_pq st \<noteq> [] \<Longrightarrow> dequeue (ast_pq st) = (Some g, pq1) \<Longrightarrow>
       Q (map_option (\<lambda>pth. ast_steps st @ [ast_snap st g, ast_final st g pth])
            (reconstructPath (ast_parentMap st) g))"
    and step: "\<And>st currStr pq1. I st \<Longrightarrow> ast_pq st \<noteq> [] \<Longrightarrow>
       dequeue (ast_pq st) = (Some currStr, pq1) \<Longrightarrow> currStr \<noteq> g \<Longrightarrow>
       I (ast_body dims goal currStr pq1 st)"
  shows "Q (ast_loop dims goal g st)"
  using init
proof (induction "cs_measure dims (ast_abs st)" arbitrary: st rule: wf_induct_rule [OF wf_cs_less])
  case 1
  show ?case
  proof (cases "ast_pq st = []")
    case True
    then show ?thesis using empty [OF "1.prems"] by (simp add: ast_loop_empty)
  next
    case False
    then obtain pq1 where d: "dequeue (ast_pq st) = (Some (item (ast_pq st ! 0)), pq1)"
      "length pq1 < length (ast_pq st)"
      using dequeue_Some by blast
    let ?c = "item (ast_pq st ! 0)"
    show ?thesis
    proof (cases "?c = g")
      case True
      then show ?thesis
        using goal [OF "1.prems" False, of pq1] d(1) False by (simp add: ast_loop_goal)
    next
      case ng: False
      have "(cs_measure dims (ast_abs (ast_body dims goal ?c pq1 st)), cs_measure dims (ast_abs st))
          \<in> cs_less"
        using cs_body_measure [OF nonneg [OF "1.prems"], of pq1 "\<lambda>c. heuristic c goal" dims ?c] d(2)
        by (simp add: ast_abs_body) (simp add: ast_abs_def)
      then have "Q (ast_loop dims goal g (ast_body dims goal ?c pq1 st))"
        using step [OF "1.prems" False d(1) ng] by (rule "1.hyps")
      then show ?thesis using False d(1) ng by (simp add: ast_loop_step)
    qed
  qed
qed


subsection \<open>Invariant of the common state for every input\<close>

definition cs_links :: "CostState \<Rightarrow> bool" where
  "cs_links cs \<longleftrightarrow>
     (\<forall>k p. cs_pm cs k = Some p \<longrightarrow>
        (\<exists>c d. k = coordToString c \<and> p = coordToString d \<and> adjacent d c)
        \<and> (\<exists>dk dp. cs_g cs k = Some dk \<and> cs_g cs p = Some dp \<and> dp + 1 \<le> dk))"

definition cs_rooted :: "string \<Rightarrow> CostState \<Rightarrow> bool" where
  "cs_rooted s cs \<longleftrightarrow>
     cs_g cs s = Some 0 \<and> cs_pm cs s = None
     \<and> (\<forall>k. cs_g cs k \<noteq> None \<longrightarrow> k = s \<or> cs_pm cs k \<noteq> None)"

definition cs_entries :: "CostState \<Rightarrow> bool" where
  "cs_entries cs \<longleftrightarrow>
     (\<forall>e \<in> set (cs_pq cs). cs_g cs (item e) \<noteq> None \<and> item e \<in> range coordToString)"

definition cs_inv :: "string \<Rightarrow> CostState \<Rightarrow> bool" where
  "cs_inv s cs \<longleftrightarrow> cs_nonneg cs \<and> cs_links cs \<and> cs_rooted s cs \<and> cs_entries cs"

lemma cs_inv_init:
  "cs_inv (coordToString start)
     \<lparr>cs_pq = enqueue [] (coordToString start) (Num 0), cs_g = [coordToString start \<mapsto> 0],
      cs_pm = Map.empty, cs_visited = {}, cs_frontier = {coordToString start}\<rparr>"
  by (simp add: cs_inv_def cs_nonneg_def cs_links_def cs_rooted_def cs_entries_def
      enqueue_empty)

lemma cs_inv_tree:
  assumes "cs_inv s cs"
  shows "tree_ok s (cs_pm cs) (dom (cs_g cs))"
proof (rule tree_okI [where rank = "\<lambda>k. nat (the (cs_g cs k))"])
  have nn: "cs_nonneg cs" and li: "cs_links cs" and ro: "cs_rooted s cs"
    using assms by (simp_all add: cs_inv_def)
  show "cs_pm cs s = None" using ro by (simp add: cs_rooted_def)
  show "k \<in> dom (cs_g cs) \<and> p \<in> dom (cs_g cs)
      \<and> (\<exists>c d. k = coordToString c \<and> p = coordToString d \<and> adjacent d c)"
    if "cs_pm cs k = Some p" for k p
    using li that unfolding cs_links_def by blast
  show "k = s \<or> cs_pm cs k \<noteq> None" if "k \<in> dom (cs_g cs)" for k
    using ro that unfolding cs_rooted_def by blast
  show "nat (the (cs_g cs p)) < nat (the (cs_g cs k))" if a: "cs_pm cs k = Some p" for k p
  proof -
    obtain dk dp where d: "cs_g cs k = Some dk" "cs_g cs p = Some dp" "dp + 1 \<le> dk"
      using li a unfolding cs_links_def by blast
    moreover have "0 \<le> dp" using nn d(2) by (simp add: cs_nonneg_def)
    ultimately show ?thesis by simp
  qed
qed

lemma cs_inv_pop:
  assumes inv: "cs_inv s cs" and sub: "set pq1 \<subseteq> set (cs_pq cs)"
  shows "cs_inv s (cs_pop currStr pq1 cs)"
  using inv sub
  by (auto simp: cs_inv_def cs_nonneg_def cs_links_def cs_rooted_def cs_entries_def cs_pop_def)

lemma cs_inv_relax:
  assumes inv: "cs_inv s cs" and dir: "dir \<in> set DIRECTIONS"
    and cur: "cs_g cs (coordToString cur) \<noteq> None"
  shows "cs_inv s (cs_relax h dims (coordToString cur) cur dir cs)"
proof -
  let ?c = "coordToString cur"
  let ?n = "nextCoord cur dir"
  let ?k = "coordToString ?n"
  obtain dc where dc: "cs_g cs ?c = Some dc" using cur by auto
  have nn: "cs_nonneg cs" and li: "cs_links cs" and ro: "cs_rooted s cs"
    and en: "cs_entries cs"
    using inv by (simp_all add: cs_inv_def)
  have dc0: "0 \<le> dc" using nn dc by (simp add: cs_nonneg_def)
  show ?thesis
  proof (cases "isValid ?n dims \<and> (case cs_g cs ?k of None \<Rightarrow> True | Some d \<Rightarrow> dc + 1 < d)")
    case False
    then have "cs_relax h dims ?c cur dir cs = cs"
      using dc by (auto simp: cs_relax_def Let_def)
    then show ?thesis using inv by simp
  next
    case True
    let ?cs = "cs\<lparr>cs_g := (cs_g cs)(?k \<mapsto> dc + 1),
                   cs_pm := (cs_pm cs)(?k \<mapsto> ?c),
                   cs_pq := enqueue (cs_pq cs) ?k (Num (dc + 1 + h ?n)),
                   cs_frontier := insert ?k (cs_frontier cs)\<rparr>"
    have eq: "cs_relax h dims ?c cur dir cs = ?cs"
      using True dc by (simp add: cs_relax_def Let_def)
    have adj: "adjacent cur ?n" using dir by (rule adjacent_nextCoord)
    have kc: "?k \<noteq> ?c" using adj by (auto simp: adjacent_def)
    have ks: "?k \<noteq> s"
    proof
      assume "?k = s"
      then have "cs_g cs ?k = Some 0" using ro by (simp add: cs_rooted_def)
      then show False using True dc0 by simp
    qed
    have old: "dc + 1 < d" if "cs_g cs ?k = Some d" for d
      using True that by simp
    have 1: "cs_nonneg ?cs" using nn dc0 by (auto simp: cs_nonneg_def)
    have 2: "cs_links ?cs"
      unfolding cs_links_def
    proof (intro allI impI)
      fix k p assume a: "cs_pm ?cs k = Some p"
      show "(\<exists>c d. k = coordToString c \<and> p = coordToString d \<and> adjacent d c)
        \<and> (\<exists>dk dp. cs_g ?cs k = Some dk \<and> cs_g ?cs p = Some dp \<and> dp + 1 \<le> dk)"
      proof (cases "k = ?k")
        case True
        then have "p = ?c" using a by simp
        then show ?thesis using True adj dc kc by auto
      next
        case False
        then have b: "cs_pm cs k = Some p" using a by simp
        then obtain dk dp where d: "cs_g cs k = Some dk" "cs_g cs p = Some dp" "dp + 1 \<le> dk"
          using li unfolding cs_links_def by blast
        have adj': "\<exists>c d. k = coordToString c \<and> p = coordToString d \<and> adjacent d c"
          using li b unfolding cs_links_def by blast
        show ?thesis
        proof (cases "p = ?k")
          case True
          then have "dc + 1 < dp" using old d(2) by simp
          then show ?thesis using adj' False True d by auto
        next
          case np: False
          then show ?thesis using adj' False d by auto
        qed
      qed
    qed
    have 3: "cs_rooted s ?cs"
      using ro ks by (auto simp: cs_rooted_def)
    have 4: "cs_entries ?cs"
      using en by (auto simp: cs_entries_def set_enqueue)
    show ?thesis unfolding eq cs_inv_def using 1 2 3 4 by simp
  qed
qed

lemma cs_relax_g_mono:
  "cs_g cs k \<noteq> None \<Longrightarrow> cs_g (cs_relax h dims currStr cur dir cs) k \<noteq> None"
  by (auto simp: cs_relax_def Let_def)

lemma cs_inv_body:
  assumes inv: "cs_inv s cs" and ne: "cs_pq cs \<noteq> []"
    and d: "dequeue (cs_pq cs) = (Some currStr, pq1)"
  shows "cs_inv s (cs_body h dims currStr pq1 cs)"
proof -
  have pq1: "pq1 = snd (dequeue (cs_pq cs))" using d by simp
  have it: "currStr = item (cs_pq cs ! 0)"
    using dequeue_Some [OF ne] d by auto
  have "cs_pq cs ! 0 \<in> set (cs_pq cs)" using ne by simp
  then have "cs_g cs currStr \<noteq> None" "currStr \<in> range coordToString"
    using inv it by (auto simp: cs_inv_def cs_entries_def)
  then obtain c where c: "currStr = coordToString c" by auto
  have "set pq1 \<subseteq> set (cs_pq cs)"
    unfolding pq1 by (rule set_dequeue_subset)
  then have P: "cs_inv s (cs_pop currStr pq1 cs)"
    using inv by (intro cs_inv_pop)
  have g: "cs_g (cs_pop currStr pq1 cs) (coordToString c) \<noteq> None"
    using \<open>cs_g cs currStr \<noteq> None\<close> c by (simp add: cs_pop_def)
  have dd: "\<lparr>row = -1, col = 0\<rparr> \<in> set DIRECTIONS" "\<lparr>row = 1, col = 0\<rparr> \<in> set DIRECTIONS"
    "\<lparr>row = 0, col = -1\<rparr> \<in> set DIRECTIONS" "\<lparr>row = 0, col = 1\<rparr> \<in> set DIRECTIONS"
    by (simp_all add: DIRECTIONS_def)
  show ?thesis
    unfolding cs_body_def c stringToCoord_coordToString option.case fold_DIRECTIONS
    by (intro cs_inv_relax dd cs_relax_g_mono P [unfolded c] g [unfolded c])
qed


subsection \<open>runDijkstra on every input\<close>

lemma dij_general:
  "\<exists>tr. runDijkstra dims start goal = Some tr \<and> cost_trace_ok start goal tr"
proof -
  let ?s = "coordToString start"
  let ?g = "coordToString goal"
  let ?I = "\<lambda>st. cs_inv ?s (dij_abs st)
      \<and> (\<forall>x \<in> set (dij_steps st). path x = None)
      \<and> (if dij_steps st = [] then dij_pq st = [\<lparr>item = ?s, priority = Num 0\<rparr>]
         else current (hd (dij_steps st)) = Some start)"
  let ?Q = "\<lambda>res. \<exists>tr. res = Some tr \<and> cost_trace_ok start goal tr"
  let ?init = "\<lparr>dij_steps = [], dij_pq = enqueue [] ?s (Num 0),
      dij_distances = [?s \<mapsto> 0], dij_parentMap = Map.empty,
      dij_visited = {}, dij_frontier = {?s}\<rparr>"
  have hd_snap: "current (hd (dij_steps st @ [dij_snap st currStr])) = Some start"
    if I: "?I st" and d: "dequeue (dij_pq st) = (Some currStr, pq1)" for st currStr pq1
  proof (cases "dij_steps st = []")
    case True
    then have "dij_pq st = [\<lparr>item = ?s, priority = Num 0\<rparr>]" using I by simp
    then have "currStr = ?s" using d by (simp add: dequeue_single)
    then show ?thesis using True by (simp add: dij_snap_def stringToCoord_coordToString)
  next
    case False
    then show ?thesis using I by simp
  qed
  have "?Q (dij_loop dims ?g ?init)"
  proof (rule dij_loop_rule [where I = ?I])
    show "?I ?init"
      using cs_inv_init [of start] by (simp add: dij_abs_def enqueue_empty)
  next
    fix st assume "?I st"
    then show "cs_nonneg (dij_abs st)" by (simp add: cs_inv_def)
  next
    fix st assume I: "?I st" and q: "dij_pq st = []"
    then have ne: "dij_steps st \<noteq> []" by auto
    have "cost_trace_ok start goal (dij_steps st)"
      unfolding cost_trace_ok_def using ne I by (auto dest: in_set_butlastD)
    then show "?Q (Some (dij_steps st))" by simp
  next
    fix st pq1
    assume I: "?I st" and ne: "dij_pq st \<noteq> []" and d: "dequeue (dij_pq st) = (Some ?g, pq1)"
    have inv: "cs_inv ?s (dij_abs st)" using I by simp
    have "?g = item (dij_pq st ! 0)" using dequeue_Some [OF ne] d by auto
    moreover have "dij_pq st ! 0 \<in> set (cs_pq (dij_abs st))" using ne by (simp add: dij_abs_def)
    ultimately have "?g \<in> dom (cs_g (dij_abs st))"
      using inv by (auto simp: cs_inv_def cs_entries_def)
    from tree_ok_path [OF cs_inv_tree [OF inv] this]
    obtain pth where p: "reconstructPath (dij_parentMap st) ?g = Some pth"
      "good_path start goal pth"
      by (auto simp: dij_abs_def)
    let ?tr = "dij_steps st @ [dij_snap st ?g, dij_final st ?g pth]"
    have hd: "current (hd ?tr) = Some start"
      using hd_snap [OF I d] by (cases "dij_steps st") simp_all
    have "butlast ?tr = dij_steps st @ [dij_snap st ?g]"
      by (simp add: butlast_append)
    then have bl: "\<forall>s \<in> set (butlast ?tr). path s = None"
      using I by (auto simp: dij_snap_def)
    have "path (last ?tr) = Some pth" by (simp add: dij_final_def)
    then have "cost_trace_ok start goal ?tr"
      unfolding cost_trace_ok_def using hd bl p(2) by simp
    then show "?Q (map_option (\<lambda>pth. dij_steps st @ [dij_snap st ?g, dij_final st ?g pth])
            (reconstructPath (dij_parentMap st) ?g))"
      using p(1) by simp
  next
    fix st currStr pq1
    assume I: "?I st" and ne: "dij_pq st \<noteq> []"
      and d: "dequeue (dij_pq st) = (Some currStr, pq1)" and ng: "currStr \<noteq> ?g"
    have inv: "cs_inv ?s (dij_abs st)" using I by simp
    have "cs_inv ?s (dij_abs (dij_body dims currStr pq1 st))"
      unfolding dij_abs_body using inv ne d
      by (intro cs_inv_body) (simp_all add: dij_abs_def)
    then show "?I (dij_body dims currStr pq1 st)"
      using hd_snap [OF I d] I by (simp add: dij_steps_body dij_snap_def)
  qed
  then show ?thesis by (simp add: runDijkstra_def Let_def)
qed


subsection \<open>runAStar on every input\<close>

lemma ast_general:
  "\<exists>tr. runAStar dims start goal = Some tr \<and> cost_trace_ok start goal tr"
proof -
  let ?s = "coordToString start"
  let ?g = "coordToString goal"
  let ?I = "\<lambda>st. cs_inv ?s (ast_abs st)
      \<and> (\<forall>x \<in> set (ast_steps st). path x = None)
      \<and> (if ast_steps st = [] then ast_pq st = [\<lparr>item = ?s, priority = Num 0\<rparr>]
         else current (hd (ast_steps st)) = Some start)"
  let ?Q = "\<lambda>res. \<exists>tr. res = Some tr \<and> cost_trace_ok start goal tr"
  let ?init = "\<lparr>ast_steps = [], ast_pq = enqueue [] ?s (Num 0),
      ast_gScore = [?s \<mapsto> 0], ast_parentMap = Map.empty,
      ast_visited = {}, ast_frontier = {?s}\<rparr>"
  have hd_snap: "current (hd (ast_steps st @ [ast_snap st currStr])) = Some start"
    if I: "?I st" and d: "dequeue (ast_pq st) = (Some currStr, pq1)" for st currStr pq1
  proof (cases "ast_steps st = []")
    case True
    then have "ast_pq st = [\<lparr>item = ?s, priority = Num 0\<rparr>]" using I by simp
    then have "currStr = ?s" using d by (simp add: dequeue_single)
    then show ?thesis using True by (simp add: ast_snap_def stringToCoord_coordToString)
  next
    case False
    then show ?thesis using I by simp
  qed
  have "?Q (ast_loop dims goal ?g ?init)"
  proof (rule ast_loop_rule [where I = ?I])
    show "?I ?init"
      using cs_inv_init [of start] by (simp add: ast_abs_def enqueue_empty)
  next
    fix st assume "?I st"
    then show "cs_nonneg (ast_abs st)" by (simp add: cs_inv_def)
  next
    fix st assume I: "?I st" and q: "ast_pq st = []"
    then have ne: "ast_steps st \<noteq> []" by auto
    have "cost_trace_ok start goal (ast_steps st)"
      unfolding cost_trace_ok_def using ne I by (auto dest: in_set_butlastD)
    then show "?Q (Some (ast_steps st))" by simp
  next
    fix st pq1
    assume I: "?I st" and ne: "ast_pq st \<noteq> []" and d: "dequeue (ast_pq st) = (Some ?g, pq1)"
    have inv: "cs_inv ?s (ast_abs st)" using I by simp
    have "?g = item (ast_pq st ! 0)" using dequeue_Some [OF ne] d by auto
    moreover have "ast_pq st ! 0 \<in> set (cs_pq (ast_abs st))" using ne by (simp add: ast_abs_def)
    ultimately have "?g \<in> dom (cs_g (ast_abs st))"
      using inv by (auto simp: cs_inv_def cs_entries_def)
    from tree_ok_path [OF cs_inv_tree [OF inv] this]
    obtain pth where p: "reconstructPath (ast_parentMap st) ?g = Some pth"
      "good_path start goal pth"
      by (auto simp: ast_abs_def)
    let ?tr = "ast_steps st @ [ast_snap st ?g, ast_final st ?g pth]"
    have hd: "current (hd ?tr) = Some start"
      using hd_snap [OF I d] by (cases "ast_steps st") simp_all
    have "butlast ?tr = ast_steps st @ [ast_snap st ?g]"
      by (simp add: butlast_append)
    then have bl: "\<forall>s \<in> set (butlast ?tr). path s = None"
      using I by (auto simp: ast_snap_def)
    have "path (last ?tr) = Some pth" by (simp add: ast_final_def)
    then have "cost_trace_ok start goal ?tr"
      unfolding cost_trace_ok_def using hd bl p(2) by simp
    then show "?Q (map_option (\<lambda>pth. ast_steps st @ [ast_snap st ?g, ast_final st ?g pth])
            (reconstructPath (ast_parentMap st) ?g))"
      using p(1) by simp
  next
    fix st currStr pq1
    assume I: "?I st" and ne: "ast_pq st \<noteq> []"
      and d: "dequeue (ast_pq st) = (Some currStr, pq1)" and ng: "currStr \<noteq> ?g"
    have inv: "cs_inv ?s (ast_abs st)" using I by simp
    have "cs_inv ?s (ast_abs (ast_body dims goal currStr pq1 st))"
      unfolding ast_abs_body using inv ne d
      by (intro cs_inv_body) (simp_all add: ast_abs_def)
    then show "?I (ast_body dims goal currStr pq1 st)"
      using hd_snap [OF I d] I by (simp add: ast_steps_body ast_snap_def)
  qed
  then show ?thesis by (simp add: runAStar_def Let_def)
qed


subsection \<open>Shortest costs on a valid input\<close>

text \<open>
  On the obstacle-free grid the cost of a cell cannot be below its Manhattan distance from
  the start.  For a priority \<open>cost + h\<close> with a non-negative \<open>h\<close> that changes by at most
  one between neighbours, every cell taken from the queue already has exactly that cost.
\<close>

definition consistent :: "(Coordinate \<Rightarrow> int) \<Rightarrow> bool" where
  "consistent h \<longleftrightarrow> (\<forall>c. 0 \<le> h c) \<and> (\<forall>a b. h a \<le> h b + heuristic a b)"

definition cs_lower :: "GridDimensions \<Rightarrow> Coordinate \<Rightarrow> CostState \<Rightarrow> bool" where
  "cs_lower dims start cs \<longleftrightarrow>
     (\<forall>c d. cs_g cs (coordToString c) = Some d \<longrightarrow> heuristic start c \<le> d \<and> isValid c dims)"

definition cs_prio :: "(Coordinate \<Rightarrow> int) \<Rightarrow> Coordinate \<Rightarrow> CostState \<Rightarrow> bool" where
  "cs_prio h start cs \<longleftrightarrow>
     (\<forall>e \<in> set (cs_pq cs). \<exists>c d. item e = coordToString c \<and> cs_g cs (coordToString c) = Some d
        \<and> (d + h c \<le> prio e \<or> c = start))"

definition cs_closed :: "GridDimensions \<Rightarrow> CostState \<Rightarrow> Coordinate \<Rightarrow> bool" where
  "cs_closed dims cs c \<longleftrightarrow>
     (\<forall>dir \<in> set DIRECTIONS. isValid (nextCoord c dir) dims \<longrightarrow>
        (\<exists>dn dc. cs_g cs (coordToString (nextCoord c dir)) = Some dn
           \<and> cs_g cs (coordToString c) = Some dc \<and> dn \<le> dc + 1))"

definition cs_settled ::
  "(Coordinate \<Rightarrow> int) \<Rightarrow> GridDimensions \<Rightarrow> CostState \<Rightarrow> Coordinate set \<Rightarrow> bool" where
  "cs_settled h dims cs X \<longleftrightarrow>
     (\<forall>c d. cs_g cs (coordToString c) = Some d \<longrightarrow> c \<notin> X \<longrightarrow>
        (coordToString c \<in> cs_visited cs \<and> cs_closed dims cs c)
        \<or> (\<exists>e \<in> set (cs_pq cs). item e = coordToString c \<and> prio e \<le> d + h c))"

definition cs_optimal :: "Coordinate \<Rightarrow> CostState \<Rightarrow> bool" where
  "cs_optimal start cs \<longleftrightarrow>
     (\<forall>c. coordToString c \<in> cs_visited cs \<longrightarrow>
        cs_g cs (coordToString c) = Some (heuristic start c))"

definition cs_within :: "GridDimensions \<Rightarrow> Coordinate \<Rightarrow> Coordinate \<Rightarrow> CostState \<Rightarrow> bool" where
  "cs_within dims start goal cs \<longleftrightarrow>
     (\<forall>k \<in> cs_visited cs. \<exists>c. k = coordToString c \<and> isValid c dims
        \<and> heuristic start c \<le> heuristic start goal)"

definition cs_opt ::
  "(Coordinate \<Rightarrow> int) \<Rightarrow> GridDimensions \<Rightarrow> Coordinate \<Rightarrow> Coordinate \<Rightarrow> CostState \<Rightarrow> bool" where
  "cs_opt h dims start goal cs \<longleftrightarrow>
     heap_ok (cs_pq cs) \<and> cs_lower dims start cs \<and> cs_prio h start cs
     \<and> cs_settled h dims cs {} \<and> cs_optimal start cs
     \<and> cs_visited cs \<inter> cs_frontier cs = {}
     \<and> cs_within dims start goal cs \<and> coordToString goal \<notin> cs_visited cs"

definition cs_mid ::
  "(Coordinate \<Rightarrow> int) \<Rightarrow> GridDimensions \<Rightarrow> Coordinate \<Rightarrow> Coordinate \<Rightarrow> Coordinate
     \<Rightarrow> Coordinate set \<Rightarrow> CostState \<Rightarrow> bool" where
  "cs_mid h dims start goal cur done cs \<longleftrightarrow>
     heap_ok (cs_pq cs) \<and> cs_lower dims start cs \<and> cs_prio h start cs
     \<and> cs_settled h dims cs {cur} \<and> cs_optimal start cs
     \<and> cs_visited cs \<inter> cs_frontier cs = {}
     \<and> cs_within dims start goal cs \<and> coordToString goal \<notin> cs_visited cs
     \<and> coordToString cur \<in> cs_visited cs
     \<and> (\<forall>dir \<in> done. isValid (nextCoord cur dir) dims \<longrightarrow>
           (\<exists>dn. cs_g cs (coordToString (nextCoord cur dir)) = Some dn
              \<and> dn \<le> heuristic start cur + 1))"

lemma consistent_zero: "consistent (\<lambda>_. 0)"
  by (simp add: consistent_def heuristic_nonneg)

lemma consistent_heuristic: "consistent (\<lambda>c. heuristic c goal)"
proof -
  have "heuristic a goal \<le> heuristic b goal + heuristic a b" for a b
    using heuristic_triangle [of a goal b] by simp
  then show ?thesis by (simp add: consistent_def heuristic_nonneg)
qed

lemma heuristic_adjacent_one: "adjacent a b \<Longrightarrow> heuristic a b = 1"
  by (auto simp: adjacent_def heuristic_def)

lemma cs_walk:
  assumes con: "consistent h" and vs: "isValid start dims"
    and g0: "cs_g cs (coordToString start) = Some 0"
    and se: "cs_settled h dims cs {}"
    and t: "isValid t dims"
  shows "(\<exists>e \<in> set (cs_pq cs). prio e \<le> heuristic start t + h t)
     \<or> (\<exists>d. cs_g cs (coordToString t) = Some d \<and> d \<le> heuristic start t
          \<and> coordToString t \<in> cs_visited cs)"
  using t
proof (induction "nat (heuristic start t)" arbitrary: t rule: less_induct)
  case less
  have S: "(coordToString c \<in> cs_visited cs \<and> cs_closed dims cs c)
        \<or> (\<exists>e \<in> set (cs_pq cs). item e = coordToString c \<and> prio e \<le> d + h c)"
    if "cs_g cs (coordToString c) = Some d" for c d
    using se that unfolding cs_settled_def by blast
  show ?case
  proof (cases "t = start")
    case True
    from S [OF g0] show ?thesis
    proof
      assume "coordToString start \<in> cs_visited cs \<and> cs_closed dims cs start"
      then show ?thesis using True g0 by simp
    next
      assume "\<exists>e \<in> set (cs_pq cs). item e = coordToString start \<and> prio e \<le> 0 + h start"
      then show ?thesis using True by auto
    qed
  next
    case False
    then obtain w dir where w: "dir \<in> set DIRECTIONS" "isValid w dims"
        "nextCoord w dir = t" "heuristic start w = heuristic start t - 1"
      using step_towards [OF vs less.prems] by metis
    have "adjacent w t" using adjacent_nextCoord [OF w(1), of w] w(3) by simp
    then have hw: "h w \<le> h t + 1"
      using con heuristic_adjacent_one [of w t] unfolding consistent_def
      by (metis add.commute)
    have "nat (heuristic start w) < nat (heuristic start t)"
      using w(4) heuristic_nonneg [of start w] by simp
    from less.hyps [OF this w(2)] show ?thesis
    proof
      assume "\<exists>e \<in> set (cs_pq cs). prio e \<le> heuristic start w + h w"
      then obtain e where "e \<in> set (cs_pq cs)" "prio e \<le> heuristic start w + h w" by blast
      then have "e \<in> set (cs_pq cs) \<and> prio e \<le> heuristic start t + h t"
        using hw w(4) by simp
      then show ?thesis by blast
    next
      assume "\<exists>d. cs_g cs (coordToString w) = Some d \<and> d \<le> heuristic start w
          \<and> coordToString w \<in> cs_visited cs"
      then obtain dw where dw: "cs_g cs (coordToString w) = Some dw" "dw \<le> heuristic start w"
        by blast
      from S [OF dw(1)] show ?thesis
      proof
        assume "\<exists>e \<in> set (cs_pq cs). item e = coordToString w \<and> prio e \<le> dw + h w"
        then obtain e where "e \<in> set (cs_pq cs)" "prio e \<le> dw + h w" by blast
        then have "e \<in> set (cs_pq cs) \<and> prio e \<le> heuristic start t + h t"
          using hw w(4) dw(2) by simp
        then show ?thesis by blast
      next
        assume "coordToString w \<in> cs_visited cs \<and> cs_closed dims cs w"
        then have "cs_closed dims cs w" by simp
        then obtain dn dc where n: "cs_g cs (coordToString (nextCoord w dir)) = Some dn"
            "cs_g cs (coordToString w) = Some dc" "dn \<le> dc + 1"
          using w(1) w(3) less.prems unfolding cs_closed_def by blast
        have dt: "cs_g cs (coordToString t) = Some dn" "dn \<le> heuristic start t"
          using n dw w(3,4) by simp_all
        from S [OF dt(1)] show ?thesis
        proof
          assume "coordToString t \<in> cs_visited cs \<and> cs_closed dims cs t"
          then show ?thesis using dt by simp
        next
          assume "\<exists>e \<in> set (cs_pq cs). item e = coordToString t \<and> prio e \<le> dn + h t"
          then obtain e where "e \<in> set (cs_pq cs)" "prio e \<le> dn + h t" by blast
          then have "e \<in> set (cs_pq cs) \<and> prio e \<le> heuristic start t + h t"
            using dt(2) by simp
          then show ?thesis by blast
        qed
      qed
    qed
  qed
qed

lemma cs_pop_facts:
  assumes con: "consistent h" and hg: "h goal = 0"
    and vs: "isValid start dims" and vg: "isValid goal dims"
    and inv: "cs_inv (coordToString start) cs" and opt: "cs_opt h dims start goal cs"
    and ne: "cs_pq cs \<noteq> []" and d: "dequeue (cs_pq cs) = (Some currStr, pq1)"
  shows "\<exists>cur. currStr = coordToString cur \<and> isValid cur dims
     \<and> cs_g cs (coordToString cur) = Some (heuristic start cur)
     \<and> heuristic start cur \<le> heuristic start goal"
proof -
  let ?e0 = "cs_pq cs ! 0"
  have O: "heap_ok (cs_pq cs)" "cs_lower dims start cs" "cs_prio h start cs"
    "cs_settled h dims cs {}" "coordToString goal \<notin> cs_visited cs"
    using opt by (simp_all add: cs_opt_def)
  have e0: "?e0 \<in> set (cs_pq cs)" using ne by simp
  have it: "currStr = item ?e0" using dequeue_Some [OF ne] d by auto
  have min: "prio ?e0 \<le> prio e" if "e \<in> set (cs_pq cs)" for e
    using dequeue_nonempty(4) [OF ne O(1)] that by blast
  obtain c dd where c: "item ?e0 = coordToString c" "cs_g cs (coordToString c) = Some dd"
      "dd + h c \<le> prio ?e0 \<or> c = start"
    using O(3) e0 unfolding cs_prio_def by blast
  have lo: "heuristic start c \<le> dd" "isValid c dims"
    using O(2) c(2) unfolding cs_lower_def by blast+
  have g0: "cs_g cs (coordToString start) = Some 0"
    using inv by (simp add: cs_inv_def cs_rooted_def)
  have hc: "0 \<le> h c" using con by (simp add: consistent_def)
  have up: "dd \<le> heuristic start c"
  proof (cases "c = start")
    case True
    then show ?thesis using g0 c(2) by simp
  next
    case False
    then have p: "dd + h c \<le> prio ?e0" using c(3) by simp
    from cs_walk [OF con vs g0 O(4) lo(2)] show ?thesis
    proof
      assume "\<exists>e \<in> set (cs_pq cs). prio e \<le> heuristic start c + h c"
      then obtain e where "e \<in> set (cs_pq cs)" "prio e \<le> heuristic start c + h c" by blast
      then show ?thesis using min [of e] p by simp
    next
      assume "\<exists>d. cs_g cs (coordToString c) = Some d \<and> d \<le> heuristic start c
          \<and> coordToString c \<in> cs_visited cs"
      then show ?thesis using c(2) by auto
    qed
  qed
  have bound: "heuristic start c \<le> heuristic start goal"
  proof (cases "c = start")
    case True
    then show ?thesis by (simp add: heuristic_nonneg)
  next
    case False
    then have p: "dd + h c \<le> prio ?e0" using c(3) by simp
    from cs_walk [OF con vs g0 O(4) vg] show ?thesis
    proof
      assume "\<exists>e \<in> set (cs_pq cs). prio e \<le> heuristic start goal + h goal"
      then obtain e where "e \<in> set (cs_pq cs)" "prio e \<le> heuristic start goal + h goal"
        by blast
      then show ?thesis using min [of e] p hg hc lo(1) by simp
    next
      assume "\<exists>d. cs_g cs (coordToString goal) = Some d \<and> d \<le> heuristic start goal
          \<and> coordToString goal \<in> cs_visited cs"
      then show ?thesis using O(5) by simp
    qed
  qed
  have "cs_g cs (coordToString c) = Some (heuristic start c)"
    using c(2) lo(1) up by simp
  then show ?thesis using it c(1) lo(2) bound by auto
qed

lemma cs_queue_nonempty:
  assumes con: "consistent h"
    and vs: "isValid start dims" and vg: "isValid goal dims"
    and inv: "cs_inv (coordToString start) cs" and opt: "cs_opt h dims start goal cs"
  shows "cs_pq cs \<noteq> []"
proof -
  have g0: "cs_g cs (coordToString start) = Some 0"
    using inv by (simp add: cs_inv_def cs_rooted_def)
  have O: "cs_settled h dims cs {}" "coordToString goal \<notin> cs_visited cs"
    using opt by (simp_all add: cs_opt_def)
  from cs_walk [OF con vs g0 O(1) vg] O(2)
  have "\<exists>e \<in> set (cs_pq cs). prio e \<le> heuristic start goal + h goal" by blast
  then show ?thesis by auto
qed

lemma cs_mid_pop:
  assumes opt: "cs_opt h dims start goal cs"
    and ne: "cs_pq cs \<noteq> []" and d: "dequeue (cs_pq cs) = (Some (coordToString cur), pq1)"
    and ng: "cur \<noteq> goal"
    and cur: "isValid cur dims" "cs_g cs (coordToString cur) = Some (heuristic start cur)"
      "heuristic start cur \<le> heuristic start goal"
  shows "cs_mid h dims start goal cur {} (cs_pop (coordToString cur) pq1 cs)"
proof -
  let ?k = "coordToString cur"
  let ?cs = "cs_pop ?k pq1 cs"
  have O: "heap_ok (cs_pq cs)" "cs_lower dims start cs" "cs_prio h start cs"
    "cs_settled h dims cs {}" "cs_optimal start cs" "cs_visited cs \<inter> cs_frontier cs = {}"
    "cs_within dims start goal cs" "coordToString goal \<notin> cs_visited cs"
    using opt by (simp_all add: cs_opt_def)
  have pq1: "pq1 = snd (dequeue (cs_pq cs))" using d by simp
  have it: "?k = item (cs_pq cs ! 0)" using dequeue_Some [OF ne] d by auto
  have sub: "set pq1 \<subseteq> set (cs_pq cs)" unfolding pq1 by (rule set_dequeue_subset)
  have keep: "e \<in> set pq1" if "e \<in> set (cs_pq cs)" "item e \<noteq> ?k" for e
    unfolding pq1 using that it by (intro set_dequeue_others ne) auto
  have 1: "heap_ok (cs_pq ?cs)"
    using dequeue_nonempty(3) [OF ne O(1)] pq1 by (simp add: cs_pop_def)
  have 2: "cs_lower dims start ?cs" using O(2) by (simp add: cs_lower_def cs_pop_def)
  have 3: "cs_prio h start ?cs"
    using O(3) sub by (auto simp: cs_prio_def cs_pop_def)
  have 4: "cs_settled h dims ?cs {cur}"
    unfolding cs_settled_def
  proof (intro allI impI)
    fix c dd assume a: "cs_g ?cs (coordToString c) = Some dd" "c \<notin> {cur}"
    then have b: "cs_g cs (coordToString c) = Some dd" by (simp add: cs_pop_def)
    have "(coordToString c \<in> cs_visited cs \<and> cs_closed dims cs c)
        \<or> (\<exists>e \<in> set (cs_pq cs). item e = coordToString c \<and> prio e \<le> dd + h c)"
      using O(4) b unfolding cs_settled_def by blast
    then show "(coordToString c \<in> cs_visited ?cs \<and> cs_closed dims ?cs c)
        \<or> (\<exists>e \<in> set (cs_pq ?cs). item e = coordToString c \<and> prio e \<le> dd + h c)"
    proof
      assume "coordToString c \<in> cs_visited cs \<and> cs_closed dims cs c"
      then show ?thesis by (simp add: cs_pop_def cs_closed_def)
    next
      assume "\<exists>e \<in> set (cs_pq cs). item e = coordToString c \<and> prio e \<le> dd + h c"
      then obtain e where e: "e \<in> set (cs_pq cs)" "item e = coordToString c"
          "prio e \<le> dd + h c" by blast
      have "e \<in> set pq1" using keep [OF e(1)] e(2) a(2) by simp
      then show ?thesis using e by (auto simp: cs_pop_def)
    qed
  qed
  have 5: "cs_optimal start ?cs"
    using O(5) cur(2) by (auto simp: cs_optimal_def cs_pop_def)
  have 6: "cs_visited ?cs \<inter> cs_frontier ?cs = {}"
    using O(6) by (auto simp: cs_pop_def)
  have 7: "cs_within dims start goal ?cs"
    using O(7) cur(1,3) by (auto simp: cs_within_def cs_pop_def)
  have 8: "coordToString goal \<notin> cs_visited ?cs"
    using O(8) ng by (simp add: cs_pop_def)
  have 9: "?k \<in> cs_visited ?cs" by (simp add: cs_pop_def)
  show ?thesis
    unfolding cs_mid_def using 1 2 3 4 5 6 7 8 9 by simp
qed

lemma cs_mid_relax:
  assumes mid: "cs_mid h dims start goal cur done cs" and dir: "dir \<in> set DIRECTIONS"
  shows "cs_mid h dims start goal cur (insert dir done)
     (cs_relax h dims (coordToString cur) cur dir cs)"
proof -
  let ?c = "coordToString cur"
  let ?n = "nextCoord cur dir"
  let ?k = "coordToString ?n"
  let ?L = "heuristic start cur"
  have M: "heap_ok (cs_pq cs)" "cs_lower dims start cs" "cs_prio h start cs"
    "cs_settled h dims cs {cur}" "cs_optimal start cs" "cs_visited cs \<inter> cs_frontier cs = {}"
    "cs_within dims start goal cs" "coordToString goal \<notin> cs_visited cs"
    "?c \<in> cs_visited cs"
    "\<forall>dir \<in> done. isValid (nextCoord cur dir) dims \<longrightarrow>
           (\<exists>dn. cs_g cs (coordToString (nextCoord cur dir)) = Some dn \<and> dn \<le> ?L + 1)"
    using mid by (simp_all add: cs_mid_def)
  have gc: "cs_g cs ?c = Some ?L" using M(5,9) by (simp add: cs_optimal_def)
  have adj: "adjacent cur ?n" using dir by (rule adjacent_nextCoord)
  have kc: "?n \<noteq> cur" using adj by (auto simp: adjacent_def)
  have ln: "heuristic start ?n \<le> ?L + 1"
    using heuristic_nextCoord [OF dir, of start cur] by auto
  show ?thesis
  proof (cases "isValid ?n dims \<and> (case cs_g cs ?k of None \<Rightarrow> True | Some d \<Rightarrow> ?L + 1 < d)")
    case False
    then have eq: "cs_relax h dims ?c cur dir cs = cs"
      using gc by (auto simp: cs_relax_def Let_def)
    have "\<exists>dn. cs_g cs ?k = Some dn \<and> dn \<le> ?L + 1" if "isValid ?n dims"
      using False that by (cases "cs_g cs ?k") auto
    then show ?thesis
      unfolding eq cs_mid_def using M by simp
  next
    case True
    let ?cs = "cs\<lparr>cs_g := (cs_g cs)(?k \<mapsto> ?L + 1),
                   cs_pm := (cs_pm cs)(?k \<mapsto> ?c),
                   cs_pq := enqueue (cs_pq cs) ?k (Num (?L + 1 + h ?n)),
                   cs_frontier := insert ?k (cs_frontier cs)\<rparr>"
    have eq: "cs_relax h dims ?c cur dir cs = ?cs"
      using True gc by (simp add: cs_relax_def Let_def)
    have old: "?L + 1 < d" if "cs_g cs ?k = Some d" for d
      using True that by simp
    have nv: "?k \<notin> cs_visited cs"
    proof
      assume "?k \<in> cs_visited cs"
      then have "cs_g cs ?k = Some (heuristic start ?n)" using M(5) by (simp add: cs_optimal_def)
      then show False using old ln by fastforce
    qed
    have 1: "heap_ok (cs_pq ?cs)" using M(1) by (simp add: heap_ok_enqueue)
    have 2: "cs_lower dims start ?cs"
      using M(2) True ln by (auto simp: cs_lower_def)
    have 3: "cs_prio h start ?cs"
      unfolding cs_prio_def
    proof
      fix e assume "e \<in> set (cs_pq ?cs)"
      then have "e = \<lparr>item = ?k, priority = Num (?L + 1 + h ?n)\<rparr> \<or> e \<in> set (cs_pq cs)"
        by (simp add: set_enqueue)
      then show "\<exists>c d. item e = coordToString c \<and> cs_g ?cs (coordToString c) = Some d
          \<and> (d + h c \<le> prio e \<or> c = start)"
      proof
        assume "e = \<lparr>item = ?k, priority = Num (?L + 1 + h ?n)\<rparr>"
        then show ?thesis by (intro exI [of _ ?n] exI [of _ "?L + 1"]) simp
      next
        assume "e \<in> set (cs_pq cs)"
        then obtain c d where c: "item e = coordToString c" "cs_g cs (coordToString c) = Some d"
            "d + h c \<le> prio e \<or> c = start"
          using M(3) unfolding cs_prio_def by blast
        show ?thesis
        proof (cases "c = ?n")
          case True
          then have "?L + 1 + h c \<le> prio e \<or> c = start"
            using c(2,3) old [of d] by auto
          then show ?thesis using c(1) True by (intro exI [of _ c] exI [of _ "?L + 1"]) simp
        next
          case False
          then show ?thesis using c by (intro exI [of _ c] exI [of _ d]) simp
        qed
      qed
    qed
    have 4: "cs_settled h dims ?cs {cur}"
      unfolding cs_settled_def
    proof (intro allI impI)
      fix c dd assume a: "cs_g ?cs (coordToString c) = Some dd" "c \<notin> {cur}"
      show "(coordToString c \<in> cs_visited ?cs \<and> cs_closed dims ?cs c)
          \<or> (\<exists>e \<in> set (cs_pq ?cs). item e = coordToString c \<and> prio e \<le> dd + h c)"
      proof (cases "c = ?n")
        case True
        then have "dd = ?L + 1" using a(1) by simp
        then have "\<lparr>item = ?k, priority = Num (?L + 1 + h ?n)\<rparr> \<in> set (cs_pq ?cs)
            \<and> item \<lparr>item = ?k, priority = Num (?L + 1 + h ?n)\<rparr> = coordToString c
            \<and> prio \<lparr>item = ?k, priority = Num (?L + 1 + h ?n)\<rparr> \<le> dd + h c"
          using True by (simp add: set_enqueue)
        then show ?thesis by blast
      next
        case False
        then have b: "cs_g cs (coordToString c) = Some dd" using a(1) by simp
        have "(coordToString c \<in> cs_visited cs \<and> cs_closed dims cs c)
            \<or> (\<exists>e \<in> set (cs_pq cs). item e = coordToString c \<and> prio e \<le> dd + h c)"
          using M(4) b a(2) unfolding cs_settled_def by blast
        then show ?thesis
        proof
          assume v: "coordToString c \<in> cs_visited cs \<and> cs_closed dims cs c"
          have "cs_closed dims ?cs c"
            unfolding cs_closed_def
          proof (intro ballI impI)
            fix dir' assume d': "dir' \<in> set DIRECTIONS" "isValid (nextCoord c dir') dims"
            then obtain dn dc where n: "cs_g cs (coordToString (nextCoord c dir')) = Some dn"
                "cs_g cs (coordToString c) = Some dc" "dn \<le> dc + 1"
              using v unfolding cs_closed_def by blast
            show "\<exists>dn dc. cs_g ?cs (coordToString (nextCoord c dir')) = Some dn
                \<and> cs_g ?cs (coordToString c) = Some dc \<and> dn \<le> dc + 1"
            proof (cases "nextCoord c dir' = ?n")
              case True
              then have "?L + 1 < dn" using n(1) old by simp
              then show ?thesis using True False n by simp
            next
              case nn: False
              then show ?thesis using False n by simp
            qed
          qed
          then show ?thesis using v by simp
        next
          assume "\<exists>e \<in> set (cs_pq cs). item e = coordToString c \<and> prio e \<le> dd + h c"
          then show ?thesis by (auto simp: set_enqueue)
        qed
      qed
    qed
    have 5: "cs_optimal start ?cs"
      using M(5) nv by (auto simp: cs_optimal_def)
    have 6: "cs_visited ?cs \<inter> cs_frontier ?cs = {}"
      using M(6) nv by auto
    have 7: "cs_within dims start goal ?cs" using M(7) by (simp add: cs_within_def)
    have 8: "coordToString goal \<notin> cs_visited ?cs" using M(8) by simp
    have 9: "?c \<in> cs_visited ?cs" using M(9) by simp
    have 10: "\<forall>d \<in> insert dir done. isValid (nextCoord cur d) dims \<longrightarrow>
           (\<exists>dn. cs_g ?cs (coordToString (nextCoord cur d)) = Some dn \<and> dn \<le> ?L + 1)"
    proof (intro ballI impI)
      fix d assume d: "d \<in> insert dir done" "isValid (nextCoord cur d) dims"
      show "\<exists>dn. cs_g ?cs (coordToString (nextCoord cur d)) = Some dn \<and> dn \<le> ?L + 1"
      proof (cases "nextCoord cur d = ?n")
        case True
        then show ?thesis by simp
      next
        case False
        then have "d \<in> done" using d(1) by auto
        then show ?thesis using M(10) d(2) False by simp
      qed
    qed
    show ?thesis
      unfolding eq cs_mid_def using 1 2 3 4 5 6 7 8 9 10 by blast
  qed
qed

lemma cs_mid_done:
  assumes mid: "cs_mid h dims start goal cur (set DIRECTIONS) cs"
  shows "cs_opt h dims start goal cs"
proof -
  let ?c = "coordToString cur"
  let ?L = "heuristic start cur"
  have M: "heap_ok (cs_pq cs)" "cs_lower dims start cs" "cs_prio h start cs"
    "cs_settled h dims cs {cur}" "cs_optimal start cs" "cs_visited cs \<inter> cs_frontier cs = {}"
    "cs_within dims start goal cs" "coordToString goal \<notin> cs_visited cs"
    "?c \<in> cs_visited cs"
    "\<forall>dir \<in> set DIRECTIONS. isValid (nextCoord cur dir) dims \<longrightarrow>
           (\<exists>dn. cs_g cs (coordToString (nextCoord cur dir)) = Some dn \<and> dn \<le> ?L + 1)"
    using mid by (simp_all add: cs_mid_def)
  have gc: "cs_g cs ?c = Some ?L" using M(5,9) by (simp add: cs_optimal_def)
  have cl: "cs_closed dims cs cur"
    unfolding cs_closed_def using M(10) gc by blast
  have "cs_settled h dims cs {}"
    unfolding cs_settled_def
  proof (intro allI impI)
    fix c dd assume a: "cs_g cs (coordToString c) = Some dd"
    show "(coordToString c \<in> cs_visited cs \<and> cs_closed dims cs c)
        \<or> (\<exists>e \<in> set (cs_pq cs). item e = coordToString c \<and> prio e \<le> dd + h c)"
    proof (cases "c = cur")
      case True
      then show ?thesis using M(9) cl by simp
    next
      case False
      then show ?thesis using M(4) a unfolding cs_settled_def by blast
    qed
  qed
  then show ?thesis
    unfolding cs_opt_def using M by simp
qed

lemma cs_opt_body:
  assumes con: "consistent h" and hg: "h goal = 0"
    and vs: "isValid start dims" and vg: "isValid goal dims"
    and inv: "cs_inv (coordToString start) cs" and opt: "cs_opt h dims start goal cs"
    and ne: "cs_pq cs \<noteq> []" and d: "dequeue (cs_pq cs) = (Some currStr, pq1)"
    and ng: "currStr \<noteq> coordToString goal"
  shows "cs_opt h dims start goal (cs_body h dims currStr pq1 cs)"
proof -
  from cs_pop_facts [OF con hg vs vg inv opt ne d]
  obtain cur where c: "currStr = coordToString cur" "isValid cur dims"
    "cs_g cs (coordToString cur) = Some (heuristic start cur)"
    "heuristic start cur \<le> heuristic start goal" by blast
  have cg: "cur \<noteq> goal" using ng c(1) by auto
  have dd: "\<lparr>row = -1, col = 0\<rparr> \<in> set DIRECTIONS" "\<lparr>row = 1, col = 0\<rparr> \<in> set DIRECTIONS"
    "\<lparr>row = 0, col = -1\<rparr> \<in> set DIRECTIONS" "\<lparr>row = 0, col = 1\<rparr> \<in> set DIRECTIONS"
    by (simp_all add: DIRECTIONS_def)
  have s: "set DIRECTIONS = insert \<lparr>row = 0, col = 1\<rparr> (insert \<lparr>row = 0, col = -1\<rparr>
      (insert \<lparr>row = 1, col = 0\<rparr> (insert \<lparr>row = -1, col = 0\<rparr> {})))"
    by (auto simp: DIRECTIONS_def)
  have "cs_mid h dims start goal cur (set DIRECTIONS) (cs_body h dims currStr pq1 cs)"
    unfolding cs_body_def c(1) stringToCoord_coordToString option.case fold_DIRECTIONS s
    by (intro cs_mid_relax dd cs_mid_pop [OF opt ne d [unfolded c(1)] cg c(2,3,4)])
  then show ?thesis by (rule cs_mid_done)
qed

lemma cs_opt_init:
  assumes con: "consistent h" and vs: "isValid start dims"
  shows "cs_opt h dims start goal
     \<lparr>cs_pq = enqueue [] (coordToString start) (Num 0), cs_g = [coordToString start \<mapsto> 0],
      cs_pm = Map.empty, cs_visited = {}, cs_frontier = {coordToString start}\<rparr>"
proof -
  have "0 \<le> h start" using con by (simp add: consistent_def)
  then show ?thesis
    using vs
    by (simp add: cs_opt_def enqueue_empty heap_ok_def heap_ord_def nonan_def cs_lower_def cs_prio_def cs_settled_def
        cs_optimal_def cs_within_def)
qed


lemma chain_adjacent:
  assumes "successively adjacent cs" and "cs \<noteq> []"
  shows "heuristic s (last cs) \<le> heuristic s (hd cs) + int (length cs) - 1"
  using assms
proof (induction cs rule: rev_induct)
  case Nil
  then show ?case by simp
next
  case (snoc x xs)
  show ?case
  proof (cases "xs = []")
    case True
    then show ?thesis by simp
  next
    case False
    then have a: "successively adjacent xs" "adjacent (last xs) x"
      using snoc.prems(1) by (simp_all add: successively_append_iff)
    have "heuristic s x \<le> heuristic s (last xs) + 1"
      using heuristic_triangle [of s x "last xs"] heuristic_adjacent_one [OF a(2)] by simp
    then show ?thesis using snoc.IH [OF a(1) False] False by simp
  qed
qed

lemma cost_path_length:
  assumes inv: "cs_inv (coordToString start) cs"
    and p: "pth \<noteq> []" "hd pth = start" "last pth = goal" "successively adjacent pth"
      "successively (\<lambda>a b. cs_pm cs (coordToString b) = Some (coordToString a)) pth"
    and gg: "cs_g cs (coordToString goal) = Some (heuristic start goal)"
  shows "int (length pth) = heuristic start goal + 1"
proof -
  let ?f = "\<lambda>c. the (cs_g cs (coordToString c))"
  have li: "cs_links cs" and g0: "cs_g cs (coordToString start) = Some 0"
    using inv by (simp_all add: cs_inv_def cs_rooted_def)
  have "successively (\<lambda>a b. ?f a + 1 \<le> ?f b) pth"
  proof (rule successively_mono [OF p(5)])
    fix a b assume "cs_pm cs (coordToString b) = Some (coordToString a)"
    then obtain dk dp where "cs_g cs (coordToString b) = Some dk"
        "cs_g cs (coordToString a) = Some dp" "dp + 1 \<le> dk"
      using li unfolding cs_links_def by blast
    then show "?f a + 1 \<le> ?f b" by simp
  qed
  from chain_length_le [OF this p(1)]
  have "int (length pth) \<le> heuristic start goal + 1"
    using p(2,3) g0 gg by simp
  moreover have "heuristic start goal + 1 \<le> int (length pth)"
    using chain_adjacent [OF p(4) p(1), of start] p(2,3) by simp
  ultimately show ?thesis by simp
qed

definition cost_shortest :: "GridDimensions \<Rightarrow> Coordinate \<Rightarrow> Coordinate \<Rightarrow> AlgoStep list \<Rightarrow> bool"
  where
  "cost_shortest dims start goal tr \<longleftrightarrow>
     (\<exists>pth. path (last tr) = Some pth \<and> int (length pth) = heuristic start goal + 1)
     \<and> (\<forall>s \<in> set tr. visited s \<inter> frontier s = {})
     \<and> (\<forall>k \<in> visited (last tr). \<exists>c. k = coordToString c \<and> isValid c dims
           \<and> heuristic start c \<le> heuristic start goal)
     \<and> current (last (butlast tr)) = Some goal
     \<and> visited (last (butlast tr)) = visited (last tr)"


subsection \<open>runDijkstra on a valid input\<close>

lemma dij_valid:
  assumes vs: "isValid start dims" and vg: "isValid goal dims"
  shows "\<exists>tr. runDijkstra dims start goal = Some tr \<and> cost_shortest dims start goal tr"
proof -
  let ?s = "coordToString start"
  let ?g = "coordToString goal"
  let ?h = "\<lambda>_ :: Coordinate. 0 :: int"
  let ?I = "\<lambda>st. cs_inv ?s (dij_abs st) \<and> cs_opt ?h dims start goal (dij_abs st)
      \<and> (\<forall>x \<in> set (dij_steps st). visited x \<inter> frontier x = {})"
  let ?Q = "\<lambda>res. \<exists>tr. res = Some tr \<and> cost_shortest dims start goal tr"
  let ?init = "\<lparr>dij_steps = [], dij_pq = enqueue [] ?s (Num 0),
      dij_distances = [?s \<mapsto> 0], dij_parentMap = Map.empty,
      dij_visited = {}, dij_frontier = {?s}\<rparr>"
  have con: "consistent ?h" by (rule consistent_zero)
  have hg: "?h goal = 0" by simp
  have "?Q (dij_loop dims ?g ?init)"
  proof (rule dij_loop_rule [where I = ?I])
    show "?I ?init"
      using cs_inv_init [of start] cs_opt_init [OF con vs, of goal]
      by (simp add: dij_abs_def)
  next
    fix st assume "?I st"
    then show "cs_nonneg (dij_abs st)" by (simp add: cs_inv_def)
  next
    fix st assume I: "?I st" and q: "dij_pq st = []"
    have "cs_pq (dij_abs st) \<noteq> []"
      using cs_queue_nonempty [OF con vs vg] I by blast
    then have False using q by (simp add: dij_abs_def)
    then show "?Q (Some (dij_steps st))" ..
  next
    fix st pq1
    assume I: "?I st" and ne: "dij_pq st \<noteq> []" and d: "dequeue (dij_pq st) = (Some ?g, pq1)"
    let ?cs = "dij_abs st"
    have inv: "cs_inv ?s ?cs" and opt: "cs_opt ?h dims start goal ?cs" using I by simp_all
    have ne': "cs_pq ?cs \<noteq> []" and d': "dequeue (cs_pq ?cs) = (Some ?g, pq1)"
      using ne d by (simp_all add: dij_abs_def)
    from cs_pop_facts [OF con hg vs vg inv opt ne' d']
    have gg: "cs_g ?cs ?g = Some (heuristic start goal)" by auto
    then have "?g \<in> dom (cs_g ?cs)" by auto
    from tree_ok_path [OF cs_inv_tree [OF inv] this]
    obtain pth where p0: "reconstructPath (cs_pm ?cs) ?g = Some pth
      \<and> good_path start goal pth
      \<and> successively (\<lambda>a b. cs_pm ?cs (coordToString b) = Some (coordToString a)) pth" ..
    then have p: "reconstructPath (dij_parentMap st) ?g = Some pth"
      "pth \<noteq> []" "hd pth = start" "last pth = goal" "successively adjacent pth"
      "successively (\<lambda>a b. cs_pm ?cs (coordToString b) = Some (coordToString a)) pth"
      by (simp_all add: good_path_def dij_abs_def)
    have len: "int (length pth) = heuristic start goal + 1"
      using cost_path_length [OF inv p(2,3,4,5,6) gg] .
    let ?tr = "dij_steps st @ [dij_snap st ?g, dij_final st ?g pth]"
    have O: "cs_visited ?cs \<inter> cs_frontier ?cs = {}" "cs_within dims start goal ?cs"
      using opt by (simp_all add: cs_opt_def)
    have dis: "\<forall>s \<in> set ?tr. visited s \<inter> frontier s = {}"
      using I O(1) by (auto simp: dij_snap_def dij_final_def dij_abs_def)
    have wi: "\<forall>k \<in> visited (last ?tr). \<exists>c. k = coordToString c \<and> isValid c dims
        \<and> heuristic start c \<le> heuristic start goal"
      using O(2) vg by (auto simp: dij_final_def dij_abs_def cs_within_def)
    have "butlast ?tr = dij_steps st @ [dij_snap st ?g]"
      by (simp add: butlast_append)
    then have bl: "current (last (butlast ?tr)) = Some goal"
      "visited (last (butlast ?tr)) = visited (last ?tr)"
      by (simp_all add: dij_snap_def dij_final_def stringToCoord_coordToString)
    have "path (last ?tr) = Some pth" by (simp add: dij_final_def)
    then have "cost_shortest dims start goal ?tr"
      unfolding cost_shortest_def using len dis wi bl by blast
    then show "?Q (map_option (\<lambda>pth. dij_steps st @ [dij_snap st ?g, dij_final st ?g pth])
            (reconstructPath (dij_parentMap st) ?g))"
      using p(1) by simp
  next
    fix st currStr pq1
    assume I: "?I st" and ne: "dij_pq st \<noteq> []"
      and d: "dequeue (dij_pq st) = (Some currStr, pq1)" and ng: "currStr \<noteq> ?g"
    let ?cs = "dij_abs st"
    have inv: "cs_inv ?s ?cs" and opt: "cs_opt ?h dims start goal ?cs" using I by simp_all
    have ne': "cs_pq ?cs \<noteq> []" and d': "dequeue (cs_pq ?cs) = (Some currStr, pq1)"
      using ne d by (simp_all add: dij_abs_def)
    have 1: "cs_inv ?s (dij_abs (dij_body dims currStr pq1 st))"
      unfolding dij_abs_body using inv ne' d' by (rule cs_inv_body)
    have 2: "cs_opt ?h dims start goal (dij_abs (dij_body dims currStr pq1 st))"
      unfolding dij_abs_body using con hg vs vg inv opt ne' d' ng by (rule cs_opt_body)
    have "cs_visited ?cs \<inter> cs_frontier ?cs = {}" using opt by (simp add: cs_opt_def)
    then have 3: "visited (dij_snap st currStr) \<inter> frontier (dij_snap st currStr) = {}"
      by (auto simp: dij_snap_def dij_abs_def)
    show "?I (dij_body dims currStr pq1 st)"
      using 1 2 3 I by (simp add: dij_steps_body)
  qed
  then show ?thesis by (simp add: runDijkstra_def Let_def)
qed


subsection \<open>runAStar on a valid input\<close>

lemma ast_valid:
  assumes vs: "isValid start dims" and vg: "isValid goal dims"
  shows "\<exists>tr. runAStar dims start goal = Some tr \<and> cost_shortest dims start goal tr"
proof -
  let ?s = "coordToString start"
  let ?g = "coordToString goal"
  let ?h = "\<lambda>c. heuristic c goal"
  let ?I = "\<lambda>st. cs_inv ?s (ast_abs st) \<and> cs_opt ?h dims start goal (ast_abs st)
      \<and> (\<forall>x \<in> set (ast_steps st). visited x \<inter> frontier x = {})"
  let ?Q = "\<lambda>res. \<exists>tr. res = Some tr \<and> cost_shortest dims start goal tr"
  let ?init = "\<lparr>ast_steps = [], ast_pq = enqueue [] ?s (Num 0),
      ast_gScore = [?s \<mapsto> 0], ast_parentMap = Map.empty,
      ast_visited = {}, ast_frontier = {?s}\<rparr>"
  have con: "consistent ?h" by (rule consistent_heuristic)
  have hg: "?h goal = 0" by simp
  have "?Q (ast_loop dims goal ?g ?init)"
  proof (rule ast_loop_rule [where I = ?I])
    show "?I ?init"
      using cs_inv_init [of start] cs_opt_init [OF con vs, of goal]
      by (simp add: ast_abs_def)
  next
    fix st assume "?I st"
    then show "cs_nonneg (ast_abs st)" by (simp add: cs_inv_def)
  next
    fix st assume I: "?I st" and q: "ast_pq st = []"
    have "cs_pq (ast_abs st) \<noteq> []"
      using cs_queue_nonempty [OF con vs vg] I by blast
    then have False using q by (simp add: ast_abs_def)
    then show "?Q (Some (ast_steps st))" ..
  next
    fix st pq1
    assume I: "?I st" and ne: "ast_pq st \<noteq> []" and d: "dequeue (ast_pq st) = (Some ?g, pq1)"
    let ?cs = "ast_abs st"
    have inv: "cs_inv ?s ?cs" and opt: "cs_opt ?h dims start goal ?cs" using I by simp_all
    have ne': "cs_pq ?cs \<noteq> []" and d': "dequeue (cs_pq ?cs) = (Some ?g, pq1)"
      using ne d by (simp_all add: ast_abs_def)
    from cs_pop_facts [OF con hg vs vg inv opt ne' d']
    have gg: "cs_g ?cs ?g = Some (heuristic start goal)" by auto
    then have "?g \<in> dom (cs_g ?cs)" by auto
    from tree_ok_path [OF cs_inv_tree [OF inv] this]
    obtain pth where p0: "reconstructPath (cs_pm ?cs) ?g = Some pth
      \<and> good_path start goal pth
      \<and> successively (\<lambda>a b. cs_pm ?cs (coordToString b) = Some (coordToString a)) pth" ..
    then have p: "reconstructPath (ast_parentMap st) ?g = Some pth"
      "pth \<noteq> []" "hd pth = start" "last pth = goal" "successively adjacent pth"
      "successively (\<lambda>a b. cs_pm ?cs (coordToString b) = Some (coordToString a)) pth"
      by (simp_all add: good_path_def ast_abs_def)
    have len: "int (length pth) = heuristic start goal + 1"
      using cost_path_length [OF inv p(2,3,4,5,6) gg] .
    let ?tr = "ast_steps st @ [ast_snap st ?g, ast_final st ?g pth]"
    have O: "cs_visited ?cs \<inter> cs_frontier ?cs = {}" "cs_within dims start goal ?cs"
      using opt by (simp_all add: cs_opt_def)
    have dis: "\<forall>s \<in> set ?tr. visited s \<inter> frontier s = {}"
      using I O(1) by (auto simp: ast_snap_def ast_final_def ast_abs_def)
    have wi: "\<forall>k \<in> visited (last ?tr). \<exists>c. k = coordToString c \<and> isValid c dims
        \<and> heuristic start c \<le> heuristic start goal"
      using O(2) vg by (auto simp: ast_final_def ast_abs_def cs_within_def)
    have "butlast ?tr = ast_steps st @ [ast_snap st ?g]"
      by (simp add: butlast_append)
    then have bl: "current (last (butlast ?tr)) = Some goal"
      "visited (last (butlast ?tr)) = visited (last ?tr)"
      by (simp_all add: ast_snap_def ast_final_def stringToCoord_coordToString)
    have "path (last ?tr) = Some pth" by (simp add: ast_final_def)
    then have "cost_shortest dims start goal ?tr"
      unfolding cost_shortest_def using len dis wi bl by blast
    then show "?Q (map_option (\<lambda>pth. ast_steps st @ [ast_snap st ?g, ast_final st ?g pth])
            (reconstructPath (ast_parentMap st) ?g))"
      using p(1) by simp
  next
    fix st currStr pq1
    assume I: "?I st" and ne: "ast_pq st \<noteq> []"
      and d: "dequeue (ast_pq st) = (Some currStr, pq1)" and ng: "currStr \<noteq> ?g"
    let ?cs = "ast_abs st"
    have inv: "cs_inv ?s ?cs" and opt: "cs_opt ?h dims start goal ?cs" using I by simp_all
    have ne': "cs_pq ?cs \<noteq> []" and d': "dequeue (cs_pq ?cs) = (Some currStr, pq1)"
      using ne d by (simp_all add: ast_abs_def)
    have 1: "cs_inv ?s (ast_abs (ast_body dims goal currStr pq1 st))"
      unfolding ast_abs_body using inv ne' d' by (rule cs_inv_body)
    have 2: "cs_opt ?h dims start goal (ast_abs (ast_body dims goal currStr pq1 st))"
      unfolding ast_abs_body using con hg vs vg inv opt ne' d' ng by (rule cs_opt_body)
    have "cs_visited ?cs \<inter> cs_frontier ?cs = {}" using opt by (simp add: cs_opt_def)
    then have 3: "visited (ast_snap st currStr) \<inter> frontier (ast_snap st currStr) = {}"
      by (auto simp: ast_snap_def ast_abs_def)
    show "?I (ast_body dims goal currStr pq1 st)"
      using 1 2 3 I by (simp add: ast_steps_body)
  qed
  then show ?thesis by (simp add: runAStar_def Let_def)
qed


section \<open>The claims about the four entry points\<close>

lemma set_last_butlast: "tr \<noteq> [] \<Longrightarrow> s \<in> set tr \<Longrightarrow> s = last tr \<or> s \<in> set (butlast tr)"
  by (metis append_butlast_last_id in_set_conv_decomp_first insert_iff list.set(2)
      rotate1.simps(2) set_rotate1)

lemma bfs_paths_good:
  assumes "bfs_trace_ok start goal tr" and "s \<in> set tr" and "path s = Some pth"
  shows "good_path start goal pth"
  using assms set_last_butlast [of tr s] by (auto simp: bfs_trace_ok_def)

lemma cost_paths_good:
  assumes "cost_trace_ok start goal tr" and "s \<in> set tr" and "path s = Some pth"
  shows "good_path start goal pth"
  using assms set_last_butlast [of tr s] by (auto simp: cost_trace_ok_def)

text \<open>
  Claim C1, as stated, fails: on the grid with zero rows and zero columns, with start and
  goal (0,0) outside it, runBFS rejects nothing and returns a trace of two snapshots.
\<close>

theorem C1_counterexample:
  "\<not> validInput \<lparr>rows = 0, cols = 0\<rparr> \<lparr>row = 0, col = 0\<rparr> \<lparr>row = 0, col = 0\<rparr>
   \<and> map_option length
       (runBFS \<lparr>rows = 0, cols = 0\<rparr> \<lparr>row = 0, col = 0\<rparr> \<lparr>row = 0, col = 0\<rparr>) = Some 2"
proof -
  have "map_option length
       (runBFS \<lparr>rows = 0, cols = 0\<rparr> \<lparr>row = 0, col = 0\<rparr> \<lparr>row = 0, col = 0\<rparr>) = Some 2"
    by code_simp
  then show ?thesis by (simp add: validInput_def)
qed

text \<open>
  Claim C1, amended.  None of the four entry points validates its input.  For every
  dimensions, start and goal, also with non-positive dimensions or with start or goal
  outside the grid, each of runBFS, runDFSRecursive, runDijkstra and runAStar returns a
  trace, the trace is not empty, and its first snapshot is the expansion of the start
  coordinate: no call is rejected and the traversal always begins.
\<close>

theorem C1_no_input_validation:
  "(\<exists>tr. runBFS dims start goal = Some tr \<and> tr \<noteq> [] \<and> current (hd tr) = Some start)
   \<and> (\<exists>tr. runDFSRecursive dims start goal = Some tr \<and> tr \<noteq> []
          \<and> current (hd tr) = Some start)
   \<and> (\<exists>tr. runDijkstra dims start goal = Some tr \<and> tr \<noteq> [] \<and> current (hd tr) = Some start)
   \<and> (\<exists>tr. runAStar dims start goal = Some tr \<and> tr \<noteq> [] \<and> current (hd tr) = Some start)"
proof (intro conjI)
  show "\<exists>tr. runBFS dims start goal = Some tr \<and> tr \<noteq> [] \<and> current (hd tr) = Some start"
    using bfs_general [of dims start goal] by (auto simp: bfs_trace_ok_def)
  show "\<exists>tr. runDFSRecursive dims start goal = Some tr \<and> tr \<noteq> []
      \<and> current (hd tr) = Some start"
    using dfs_general [of dims start goal] by (auto simp: dfs_trace_ok_def)
  show "\<exists>tr. runDijkstra dims start goal = Some tr \<and> tr \<noteq> [] \<and> current (hd tr) = Some start"
    using dij_general [of dims start goal] by (auto simp: cost_trace_ok_def)
  show "\<exists>tr. runAStar dims start goal = Some tr \<and> tr \<noteq> [] \<and> current (hd tr) = Some start"
    using ast_general [of dims start goal] by (auto simp: cost_trace_ok_def)
qed

text \<open>
  Claim C2, as stated, fails: on the 2 by 2 grid with start (0,0) and goal (1,1), the
  second snapshot of runBFS has the key "0,1" both in its frontier and in its visited set.
\<close>

theorem C2_counterexample:
  "validInput \<lparr>rows = 2, cols = 2\<rparr> \<lparr>row = 0, col = 0\<rparr> \<lparr>row = 1, col = 1\<rparr>
   \<and> map_option (\<lambda>tr. ''0,1'' \<in> visited (tr ! 1) \<inter> frontier (tr ! 1))
       (runBFS \<lparr>rows = 2, cols = 2\<rparr> \<lparr>row = 0, col = 0\<rparr> \<lparr>row = 1, col = 1\<rparr>) = Some True"
proof -
  have "map_option (\<lambda>tr. ''0,1'' \<in> visited (tr ! 1) \<inter> frontier (tr ! 1))
       (runBFS \<lparr>rows = 2, cols = 2\<rparr> \<lparr>row = 0, col = 0\<rparr> \<lparr>row = 1, col = 1\<rparr>) = Some True"
    by code_simp
  then show ?thesis by (simp add: validInput_def isValid_def)
qed

text \<open>
  Claim C2, amended.  On a valid input, every snapshot of the traces of runDijkstra and
  runAStar has disjoint frontier and visited sets (a key enters visited when it is taken
  from the queue and is never put back into the frontier).  In the traces of runBFS and
  runDFSRecursive the frontier is instead contained in the visited set, so the two sets
  are disjoint only in a snapshot whose frontier is empty.
\<close>

theorem C2_frontier_visited_by_algorithm:
  "validInput dims start goal \<Longrightarrow>
   (\<exists>tr. runDijkstra dims start goal = Some tr
          \<and> (\<forall>s \<in> set tr. visited s \<inter> frontier s = {}))
   \<and> (\<exists>tr. runAStar dims start goal = Some tr
          \<and> (\<forall>s \<in> set tr. visited s \<inter> frontier s = {}))
   \<and> (\<exists>tr. runBFS dims start goal = Some tr
          \<and> (\<forall>s \<in> set tr. visited s \<inter> frontier s = frontier s))
   \<and> (\<exists>tr. runDFSRecursive dims start goal = Some tr
          \<and> (\<forall>s \<in> set tr. visited s \<inter> frontier s = frontier s))"
proof -
  assume v: "validInput dims start goal"
  then have vs: "isValid start dims" and vg: "isValid goal dims"
    by (simp_all add: validInput_def)
  show ?thesis
  proof (intro conjI)
    show "\<exists>tr. runDijkstra dims start goal = Some tr
        \<and> (\<forall>s \<in> set tr. visited s \<inter> frontier s = {})"
      using dij_valid [OF vs vg] by (auto simp: cost_shortest_def)
    show "\<exists>tr. runAStar dims start goal = Some tr
        \<and> (\<forall>s \<in> set tr. visited s \<inter> frontier s = {})"
      using ast_valid [OF vs vg] by (auto simp: cost_shortest_def)
    show "\<exists>tr. runBFS dims start goal = Some tr
        \<and> (\<forall>s \<in> set tr. visited s \<inter> frontier s = frontier s)"
      using bfs_general [of dims start goal] by (auto simp: bfs_trace_ok_def)
    show "\<exists>tr. runDFSRecursive dims start goal = Some tr
        \<and> (\<forall>s \<in> set tr. visited s \<inter> frontier s = frontier s)"
      using dfs_general [of dims start goal] by (auto simp: dfs_trace_ok_def)
  qed
qed

theorem C2_frontier_visited_by_algorithm_witness:
  "validInput \<lparr>rows = 2, cols = 2\<rparr> \<lparr>row = 0, col = 0\<rparr> \<lparr>row = 1, col = 1\<rparr>
   \<and> (\<exists>tr. runDijkstra \<lparr>rows = 2, cols = 2\<rparr> \<lparr>row = 0, col = 0\<rparr> \<lparr>row = 1, col = 1\<rparr> = Some tr
          \<and> (\<forall>s \<in> set tr. visited s \<inter> frontier s = {}))
   \<and> (\<exists>tr. runAStar \<lparr>rows = 2, cols = 2\<rparr> \<lparr>row = 0, col = 0\<rparr> \<lparr>row = 1, col = 1\<rparr> = Some tr
          \<and> (\<forall>s \<in> set tr. visited s \<inter> frontier s = {}))
   \<and> (\<exists>tr. runBFS \<lparr>rows = 2, cols = 2\<rparr> \<lparr>row = 0, col = 0\<rparr> \<lparr>row = 1, col = 1\<rparr> = Some tr
          \<and> (\<forall>s \<in> set tr. visited s \<inter> frontier s = frontier s))
   \<and> (\<exists>tr. runDFSRecursive \<lparr>rows = 2, cols = 2\<rparr> \<lparr>row = 0, col = 0\<rparr> \<lparr>row = 1, col = 1\<rparr> = Some tr
          \<and> (\<forall>s \<in> set tr. visited s \<inter> frontier s = frontier s))"
  using C2_frontier_visited_by_algorithm
    [of "\<lparr>rows = 2, cols = 2\<rparr>" "\<lparr>row = 0, col = 0\<rparr>" "\<lparr>row = 1, col = 1\<rparr>"]
  by (simp add: validInput_def isValid_def)

text \<open>
  Claim C3, evaluated where the code departs from it.  On the grid of one row and two
  columns, with start (0,0) and goal (0,1), runDFSRecursive reaches the goal through the
  last direction of the loop (Right).  The loop of the start cell then ends without
  meeting its \<open>if (found) return\<close> again, the backtracking snapshot of the start cell
  is appended, and the trace has four snapshots of which the third carries the path and
  the last carries none.
\<close>

theorem C3_dfs_path_snapshot_not_last:
  "map_option (map path)
     (runDFSRecursive \<lparr>rows = 1, cols = 2\<rparr> \<lparr>row = 0, col = 0\<rparr> \<lparr>row = 0, col = 1\<rparr>)
   = Some [None, None, Some [\<lparr>row = 0, col = 0\<rparr>, \<lparr>row = 0, col = 1\<rparr>], None]"
  by code_simp

text \<open>
  Claim C4.  For every valid dimensions, start and goal on the obstacle-free grid, runAStar
  and runBFS both return a trace that ends with a path-bearing snapshot preceded by the
  snapshot of the step at which the goal is dequeued; the visited set of that snapshot of
  runAStar is not larger than the visited set of that snapshot of runBFS, and the two
  paths have the same length.
\<close>

theorem C4_astar_visits_no_more_than_bfs:
  "validInput dims start goal \<Longrightarrow>
   \<exists>ta tb pa pb.
     runAStar dims start goal = Some ta \<and> runBFS dims start goal = Some tb
     \<and> current (last (butlast ta)) = Some goal \<and> current (last (butlast tb)) = Some goal
     \<and> card (visited (last (butlast ta))) \<le> card (visited (last (butlast tb)))
     \<and> path (last ta) = Some pa \<and> path (last tb) = Some pb
     \<and> length pa = length pb"
proof -
  assume v: "validInput dims start goal"
  then have vs: "isValid start dims" and vg: "isValid goal dims"
    by (simp_all add: validInput_def)
  obtain ta where ta: "runAStar dims start goal = Some ta" "cost_shortest dims start goal ta"
    using ast_valid [OF vs vg] by blast
  obtain tb where tb: "runBFS dims start goal = Some tb" "bfs_shortest dims start goal tb"
    using bfs_valid [OF vs vg] by blast
  obtain pa where pa: "path (last ta) = Some pa" "int (length pa) = heuristic start goal + 1"
    using ta(2) by (auto simp: cost_shortest_def)
  obtain pb where pb: "path (last tb) = Some pb" "int (length pb) = heuristic start goal + 1"
    using tb(2) by (auto simp: bfs_shortest_def)
  have A: "\<forall>k \<in> visited (last ta). \<exists>c. k = coordToString c \<and> isValid c dims
           \<and> heuristic start c \<le> heuristic start goal"
    "current (last (butlast ta)) = Some goal"
    "visited (last (butlast ta)) = visited (last ta)"
    using ta(2) by (simp_all add: cost_shortest_def)
  have B: "\<forall>u. isValid u dims \<longrightarrow> heuristic start u \<le> heuristic start goal \<longrightarrow>
           coordToString u \<in> visited (last tb)"
    "visited (last tb) \<subseteq> validKeys dims"
    "current (last (butlast tb)) = Some goal"
    "visited (last (butlast tb)) = visited (last tb)"
    using tb(2) by (simp_all add: bfs_shortest_def)
  have sub: "visited (last ta) \<subseteq> visited (last tb)"
  proof
    fix k assume "k \<in> visited (last ta)"
    then obtain c where "k = coordToString c" "isValid c dims"
        "heuristic start c \<le> heuristic start goal"
      using A(1) by blast
    then show "k \<in> visited (last tb)" using B(1) by simp
  qed
  have "finite (visited (last tb))"
    using B(2) finite_validKeys by (rule finite_subset)
  then have "card (visited (last ta)) \<le> card (visited (last tb))"
    using sub by (intro card_mono)
  moreover have "length pa = length pb" using pa(2) pb(2) by simp
  ultimately show ?thesis
    using ta(1) tb(1) pa(1) pb(1) A(2,3) B(3,4) by simp
qed

theorem C4_astar_visits_no_more_than_bfs_witness:
  "validInput \<lparr>rows = 3, cols = 3\<rparr> \<lparr>row = 0, col = 0\<rparr> \<lparr>row = 2, col = 2\<rparr>
   \<and> (\<exists>ta tb pa pb.
     runAStar \<lparr>rows = 3, cols = 3\<rparr> \<lparr>row = 0, col = 0\<rparr> \<lparr>row = 2, col = 2\<rparr> = Some ta
     \<and> runBFS \<lparr>rows = 3, cols = 3\<rparr> \<lparr>row = 0, col = 0\<rparr> \<lparr>row = 2, col = 2\<rparr> = Some tb
     \<and> current (last (butlast ta)) = Some \<lparr>row = 2, col = 2\<rparr>
     \<and> current (last (butlast tb)) = Some \<lparr>row = 2, col = 2\<rparr>
     \<and> card (visited (last (butlast ta))) \<le> card (visited (last (butlast tb)))
     \<and> path (last ta) = Some pa \<and> path (last tb) = Some pb
     \<and> length pa = length pb)"
  using C4_astar_visits_no_more_than_bfs
    [of "\<lparr>rows = 3, cols = 3\<rparr>" "\<lparr>row = 0, col = 0\<rparr>" "\<lparr>row = 2, col = 2\<rparr>"]
  by (simp add: validInput_def isValid_def)

text \<open>
  Claim C5.  For every valid dimensions, start and goal on the obstacle-free grid, runBFS
  and runDijkstra both return a trace whose last snapshot carries a path; the two paths
  have the same length, and that length, counted in nodes, is the Manhattan distance
  between start and goal plus one.
\<close>

theorem C5_bfs_dijkstra_path_length:
  "validInput dims start goal \<Longrightarrow>
   \<exists>tb td pb pd.
     runBFS dims start goal = Some tb \<and> runDijkstra dims start goal = Some td
     \<and> path (last tb) = Some pb \<and> path (last td) = Some pd
     \<and> length pb = length pd
     \<and> int (length pb) = \<bar>row start - row goal\<bar> + \<bar>col start - col goal\<bar> + 1"
proof -
  assume v: "validInput dims start goal"
  then have vs: "isValid start dims" and vg: "isValid goal dims"
    by (simp_all add: validInput_def)
  obtain td where td: "runDijkstra dims start goal = Some td" "cost_shortest dims start goal td"
    using dij_valid [OF vs vg] by blast
  obtain tb where tb: "runBFS dims start goal = Some tb" "bfs_shortest dims start goal tb"
    using bfs_valid [OF vs vg] by blast
  obtain pd where pd: "path (last td) = Some pd" "int (length pd) = heuristic start goal + 1"
    using td(2) by (auto simp: cost_shortest_def)
  obtain pb where pb: "path (last tb) = Some pb" "int (length pb) = heuristic start goal + 1"
    using tb(2) by (auto simp: bfs_shortest_def)
  have "length pb = length pd" using pd(2) pb(2) by simp
  then show ?thesis
    using td(1) tb(1) pd(1) pb by (simp add: heuristic_def)
qed

theorem C5_bfs_dijkstra_path_length_witness:
  "validInput \<lparr>rows = 3, cols = 3\<rparr> \<lparr>row = 0, col = 0\<rparr> \<lparr>row = 2, col = 2\<rparr>
   \<and> (\<exists>tb td pb pd.
     runBFS \<lparr>rows = 3, cols = 3\<rparr> \<lparr>row = 0, col = 0\<rparr> \<lparr>row = 2, col = 2\<rparr> = Some tb
     \<and> runDijkstra \<lparr>rows = 3, cols = 3\<rparr> \<lparr>row = 0, col = 0\<rparr> \<lparr>row = 2, col = 2\<rparr> = Some td
     \<and> path (last tb) = Some pb \<and> path (last td) = Some pd
     \<and> length pb = length pd \<and> length pb = 5)"
  using C5_bfs_dijkstra_path_length
    [of "\<lparr>rows = 3, cols = 3\<rparr>" "\<lparr>row = 0, col = 0\<rparr>" "\<lparr>row = 2, col = 2\<rparr>"]
  by (simp add: validInput_def isValid_def)

text \<open>
  Claim C7.  For each of the four algorithms and every valid input, the call returns a
  trace, and whenever a snapshot of that trace carries a path, the path is not empty,
  starts at start, ends at goal, and every two consecutive coordinates of it differ by
  exactly one orthogonal step (same row and columns one apart, or same column and rows one
  apart).
\<close>

theorem C7_paths_lead_from_start_to_goal:
  "validInput dims start goal \<Longrightarrow>
   (\<exists>tr. runBFS dims start goal = Some tr
        \<and> (\<forall>s \<in> set tr. \<forall>pth. path s = Some pth \<longrightarrow>
              pth \<noteq> [] \<and> hd pth = start \<and> last pth = goal \<and> successively adjacent pth))
   \<and> (\<exists>tr. runDFSRecursive dims start goal = Some tr
        \<and> (\<forall>s \<in> set tr. \<forall>pth. path s = Some pth \<longrightarrow>
              pth \<noteq> [] \<and> hd pth = start \<and> last pth = goal \<and> successively adjacent pth))
   \<and> (\<exists>tr. runDijkstra dims start goal = Some tr
        \<and> (\<forall>s \<in> set tr. \<forall>pth. path s = Some pth \<longrightarrow>
              pth \<noteq> [] \<and> hd pth = start \<and> last pth = goal \<and> successively adjacent pth))
   \<and> (\<exists>tr. runAStar dims start goal = Some tr
        \<and> (\<forall>s \<in> set tr. \<forall>pth. path s = Some pth \<longrightarrow>
              pth \<noteq> [] \<and> hd pth = start \<and> last pth = goal \<and> successively adjacent pth))"
proof -
  have 1: "\<exists>tr. runBFS dims start goal = Some tr
        \<and> (\<forall>s \<in> set tr. \<forall>pth. path s = Some pth \<longrightarrow>
              pth \<noteq> [] \<and> hd pth = start \<and> last pth = goal \<and> successively adjacent pth)"
    using bfs_general [of dims start goal] bfs_paths_good [of start goal]
    unfolding good_path_def by blast
  have 2: "\<exists>tr. runDFSRecursive dims start goal = Some tr
        \<and> (\<forall>s \<in> set tr. \<forall>pth. path s = Some pth \<longrightarrow>
              pth \<noteq> [] \<and> hd pth = start \<and> last pth = goal \<and> successively adjacent pth)"
    using dfs_general [of dims start goal]
    unfolding dfs_trace_ok_def good_path_def by blast
  have 3: "\<exists>tr. runDijkstra dims start goal = Some tr
        \<and> (\<forall>s \<in> set tr. \<forall>pth. path s = Some pth \<longrightarrow>
              pth \<noteq> [] \<and> hd pth = start \<and> last pth = goal \<and> successively adjacent pth)"
    using dij_general [of dims start goal] cost_paths_good [of start goal]
    unfolding good_path_def by blast
  have 4: "\<exists>tr. runAStar dims start goal = Some tr
        \<and> (\<forall>s \<in> set tr. \<forall>pth. path s = Some pth \<longrightarrow>
              pth \<noteq> [] \<and> hd pth = start \<and> last pth = goal \<and> successively adjacent pth)"
    using ast_general [of dims start goal] cost_paths_good [of start goal]
    unfolding good_path_def by blast
  show ?thesis using 1 2 3 4 by simp
qed

theorem C7_paths_lead_from_start_to_goal_witness:
  "validInput \<lparr>rows = 1, cols = 2\<rparr> \<lparr>row = 0, col = 0\<rparr> \<lparr>row = 0, col = 1\<rparr>
   \<and> map_option (map path) (runAStar \<lparr>rows = 1, cols = 2\<rparr> \<lparr>row = 0, col = 0\<rparr> \<lparr>row = 0, col = 1\<rparr>)
     = Some [None, None, Some [\<lparr>row = 0, col = 0\<rparr>, \<lparr>row = 0, col = 1\<rparr>]]
   \<and> (\<exists>tr. runBFS \<lparr>rows = 1, cols = 2\<rparr> \<lparr>row = 0, col = 0\<rparr> \<lparr>row = 0, col = 1\<rparr> = Some tr
        \<and> (\<forall>s \<in> set tr. \<forall>pth. path s = Some pth \<longrightarrow>
              pth \<noteq> [] \<and> hd pth = \<lparr>row = 0, col = 0\<rparr> \<and> last pth = \<lparr>row = 0, col = 1\<rparr> \<and> successively adjacent pth))
   \<and> (\<exists>tr. runDFSRecursive \<lparr>rows = 1, cols = 2\<rparr> \<lparr>row = 0, col = 0\<rparr> \<lparr>row = 0, col = 1\<rparr> = Some tr
        \<and> (\<forall>s \<in> set tr. \<forall>pth. path s = Some pth \<longrightarrow>
              pth \<noteq> [] \<and> hd pth = \<lparr>row = 0, col = 0\<rparr> \<and> last pth = \<lparr>row = 0, col = 1\<rparr> \<and> successively adjacent pth))
   \<and> (\<exists>tr. runDijkstra \<lparr>rows = 1, cols = 2\<rparr> \<lparr>row = 0, col = 0\<rparr> \<lparr>row = 0, col = 1\<rparr> = Some tr
        \<and> (\<forall>s \<in> set tr. \<forall>pth. path s = Some pth \<longrightarrow>
              pth \<noteq> [] \<and> hd pth = \<lparr>row = 0, col = 0\<rparr> \<and> last pth = \<lparr>row = 0, col = 1\<rparr> \<and> successively adjacent pth))
   \<and> (\<exists>tr. runAStar \<lparr>rows = 1, cols = 2\<rparr> \<lparr>row = 0, col = 0\<rparr> \<lparr>row = 0, col = 1\<rparr> = Some tr
        \<and> (\<forall>s \<in> set tr. \<forall>pth. path s = Some pth \<longrightarrow>
              pth \<noteq> [] \<and> hd pth = \<lparr>row = 0, col = 0\<rparr> \<and> last pth = \<lparr>row = 0, col = 1\<rparr> \<and> successively adjacent pth))"
proof -
  have e: "map_option (map path) (runAStar \<lparr>rows = 1, cols = 2\<rparr> \<lparr>row = 0, col = 0\<rparr> \<lparr>row = 0, col = 1\<rparr>)
     = Some [None, None, Some [\<lparr>row = 0, col = 0\<rparr>, \<lparr>row = 0, col = 1\<rparr>]]"
    by code_simp
  have v: "validInput \<lparr>rows = 1, cols = 2\<rparr> \<lparr>row = 0, col = 0\<rparr> \<lparr>row = 0, col = 1\<rparr>"
    by (simp add: validInput_def isValid_def)
  show ?thesis
    using e v C7_paths_lead_from_start_to_goal [OF v] by simp
qed

text \<open>
  Claim C9.  For every valid dimensions, start and goal (positive rows and columns, start
  and goal inside the grid), each of the four entry points terminates: the queue loop of
  runBFS, the recursion of runDFSRecursive and the two priority-queue loops of runDijkstra
  and runAStar reach their end, and the call returns a finite trace.
\<close>

theorem C9_entry_points_terminate:
  "validInput dims start goal \<Longrightarrow>
   (\<exists>tr. runBFS dims start goal = Some tr)
   \<and> (\<exists>tr. runDFSRecursive dims start goal = Some tr)
   \<and> (\<exists>tr. runDijkstra dims start goal = Some tr)
   \<and> (\<exists>tr. runAStar dims start goal = Some tr)"
  using bfs_general [of dims start goal] dfs_general [of dims start goal]
    dij_general [of dims start goal] ast_general [of dims start goal]
  by blast

theorem C9_entry_points_terminate_witness:
  "validInput \<lparr>rows = 4, cols = 5\<rparr> \<lparr>row = 3, col = 0\<rparr> \<lparr>row = 0, col = 4\<rparr>
   \<and> (\<exists>tr. runBFS \<lparr>rows = 4, cols = 5\<rparr> \<lparr>row = 3, col = 0\<rparr> \<lparr>row = 0, col = 4\<rparr> = Some tr)
   \<and> (\<exists>tr. runDFSRecursive \<lparr>rows = 4, cols = 5\<rparr> \<lparr>row = 3, col = 0\<rparr> \<lparr>row = 0, col = 4\<rparr> = Some tr)
   \<and> (\<exists>tr. runDijkstra \<lparr>rows = 4, cols = 5\<rparr> \<lparr>row = 3, col = 0\<rparr> \<lparr>row = 0, col = 4\<rparr> = Some tr)
   \<and> (\<exists>tr. runAStar \<lparr>rows = 4, cols = 5\<rparr> \<lparr>row = 3, col = 0\<rparr> \<lparr>row = 0, col = 4\<rparr> = Some tr)"
  using C9_entry_points_terminate
    [of "\<lparr>rows = 4, cols = 5\<rparr>" "\<lparr>row = 3, col = 0\<rparr>" "\<lparr>row = 0, col = 4\<rparr>"]
  by (simp add: validInput_def isValid_def)

text \<open>
  Claim C10.  For runBFS and runDFSRecursive on a valid input (positive dimensions, start
  and goal inside the grid) the call returns a trace, and in every snapshot of that trace
  the frontier set is contained in the visited set: breadth-first search marks a cell
  visited when it discovers it, and the frontier of the depth-first search is its recursion
  stack of cells already visited.
\<close>

theorem C10_frontier_subset_visited:
  "validInput dims start goal \<Longrightarrow>
   (\<exists>tr. runBFS dims start goal = Some tr \<and> (\<forall>s \<in> set tr. frontier s \<subseteq> visited s))
   \<and> (\<exists>tr. runDFSRecursive dims start goal = Some tr
          \<and> (\<forall>s \<in> set tr. frontier s \<subseteq> visited s))"
proof -
  obtain tb where "runBFS dims start goal = Some tb" "bfs_trace_ok start goal tb"
    using bfs_general by blast
  moreover obtain td where "runDFSRecursive dims start goal = Some td"
    "dfs_trace_ok start goal td"
    using dfs_general by blast
  ultimately show ?thesis
    by (simp add: bfs_trace_ok_def dfs_trace_ok_def)
qed

theorem C10_frontier_subset_visited_witness:
  "validInput \<lparr>rows = 2, cols = 2\<rparr> \<lparr>row = 0, col = 0\<rparr> \<lparr>row = 1, col = 1\<rparr>
   \<and> (\<exists>tr. runBFS \<lparr>rows = 2, cols = 2\<rparr> \<lparr>row = 0, col = 0\<rparr> \<lparr>row = 1, col = 1\<rparr> = Some tr
          \<and> (\<forall>s \<in> set tr. frontier s \<subseteq> visited s))
   \<and> (\<exists>tr. runDFSRecursive \<lparr>rows = 2, cols = 2\<rparr> \<lparr>row = 0, col = 0\<rparr> \<lparr>row = 1, col = 1\<rparr> = Some tr
          \<and> (\<forall>s \<in> set tr. frontier s \<subseteq> visited s))"
  using C10_frontier_subset_visited
    [of "\<lparr>rows = 2, cols = 2\<rparr>" "\<lparr>row = 0, col = 0\<rparr>" "\<lparr>row = 1, col = 1\<rparr>"]
  by (simp add: validInput_def isValid_def)


end
